theory Spec2Isabelle
  imports
    Main
    "HOL-Library.Word"
    "HOL-Library.AList"
    "HOL-Library.Char_ord"
    "HOL-Library.List_Lexorder"
    "HOL-Library.Product_Lexorder"
begin

unbundle bit_operations_syntax

section \<open>Errors\<close>

text \<open>
  \<^verbatim>\<open>coverage/sqldata.py\<close> raises a single exception class,
  \<^verbatim>\<open>CoverageException\<close>, with a message; \<^verbatim>\<open>coverage/results.py\<close> raises
  \<^verbatim>\<open>ConfigError\<close>. The operations below return \<open>error + 'a\<close>, with \<open>Inl\<close> for a
  raised exception. \<open>KeyError\<close> and \<open>ValueError\<close> are the Python built-in exceptions
  of a failed dictionary subscript and of \<^verbatim>\<open>int()\<close> on a text that is no number;
  \<open>OperationalError\<close> is \<^verbatim>\<open>sqlite3.OperationalError\<close>, where it is raised outside
  \<^verbatim>\<open>SqliteDb.execute\<close>, which would turn it into a \<^verbatim>\<open>CoverageException\<close>.
\<close>

datatype error =
    CoverageException string
  | ConfigError
  | KeyError
  | AssertionError
  | IntegrityError
  | ValueError
  | OperationalError

definition then_res :: "error + 'a \<Rightarrow> ('a \<Rightarrow> error + 'b) \<Rightarrow> error + 'b" where
  "then_res r f = (case r of Inl e \<Rightarrow> Inl e | Inr x \<Rightarrow> f x)"

fun fold_res :: "('a \<Rightarrow> 's \<Rightarrow> error + 's) \<Rightarrow> 'a list \<Rightarrow> 's \<Rightarrow> error + 's" where
  "fold_res f [] s = Inr s"
| "fold_res f (x # xs) s = (case f x s of Inl e \<Rightarrow> Inl e | Inr s' \<Rightarrow> fold_res f xs s')"

section \<open>Numbits\<close>

text \<open>
  Modelled from the spec: \<^verbatim>\<open>coverage/numbits.py\<close> (\<^verbatim>\<open>nums_to_numbits\<close>,
  \<^verbatim>\<open>numbits_to_nums\<close>, \<^verbatim>\<open>numbits_union\<close>) is imported by \<^verbatim>\<open>sqldata.py\<close> but
  is not among the sources. The spec (4.1): a numbits value is a sequence of bytes where
  bit \<open>i\<close> of byte \<open>k\<close> is set iff integer \<open>8*k + i\<close> is in the set; the encoding has
  no trailing zero byte beyond the byte of the largest number; union is bitwise OR aligned
  to byte 0, of length the maximum of the two lengths.
\<close>

type_synonym numbits = "8 word list"

definition byte_of_nums :: "nat list \<Rightarrow> nat \<Rightarrow> 8 word" where
  "byte_of_nums nums k =
     fold (\<lambda>n b. if n div 8 = k then b OR push_bit (n mod 8) 1 else b) nums 0"

definition nums_to_numbits :: "nat list \<Rightarrow> numbits" where
  "nums_to_numbits nums =
     (if nums = [] then []
      else map (byte_of_nums nums) [0 ..< Max (set nums) div 8 + 1])"

definition numbits_to_nums :: "numbits \<Rightarrow> nat list" where
  "numbits_to_nums numbits =
     concat (map (\<lambda>(byte_i, byte). map (\<lambda>bit_i. byte_i * 8 + bit_i)
                                       (filter (\<lambda>bit_i. bit byte bit_i) [0 ..< 8]))
                 (enumerate 0 numbits))"

fun numbits_union :: "numbits \<Rightarrow> numbits \<Rightarrow> numbits" where
  "numbits_union [] [] = []"
| "numbits_union (b1 # n1) [] = (b1 OR 0) # numbits_union n1 []"
| "numbits_union [] (b2 # n2) = (0 OR b2) # numbits_union [] n2"
| "numbits_union (b1 # n1) (b2 # n2) = (b1 OR b2) # numbits_union n1 n2"

section \<open>The database of a data file\<close>

text \<open>
  The tables of \<^verbatim>\<open>SCHEMA\<close> (sqldata.py, lines 42-102), each as the list of its rows
  in insertion order. The uniqueness constraints of the schema are kept by the
  statements that write the tables (\<^verbatim>\<open>insert or ignore\<close>, \<^verbatim>\<open>insert or replace\<close>),
  modelled below.
\<close>

record database =
  coverage_schema :: "nat list"
  meta_rows :: "(string \<times> string) list"
  file_rows :: "(nat \<times> string) list"
  context_rows :: "(nat \<times> string) list"
  line_bits_rows :: "(nat \<times> nat \<times> numbits) list"
  arc_rows :: "(nat \<times> nat \<times> int \<times> int) list"
  tracer_rows :: "(nat \<times> string) list"

definition SCHEMA_VERSION :: nat where
  "SCHEMA_VERSION = 7"

text \<open>
  An \<^verbatim>\<open>integer primary key\<close> column left out of an insert gets the largest id of the
  table plus one (1 in an empty table).
\<close>

definition new_rowid :: "(nat \<times> 'a) list \<Rightarrow> nat" where
  "new_rowid rows = (if rows = [] then 1 else Max (set (map fst rows)) + 1)"

text \<open>\<^verbatim>\<open>insert or ignore into T (col) values (?)\<close> on a table with \<^verbatim>\<open>unique (col)\<close>.\<close>

definition insert_or_ignore :: "string \<Rightarrow> (nat \<times> string) list \<Rightarrow> (nat \<times> string) list" where
  "insert_or_ignore v rows =
     (if v \<in> set (map snd rows) then rows else rows @ [(new_rowid rows, v)])"

text \<open>
  \<^verbatim>\<open>insert or replace into T (col) values (?)\<close>: rows that hold the value are deleted,
  and the new row is added; the result is the table and \<^verbatim>\<open>lastrowid\<close>.
\<close>

definition insert_or_replace :: "string \<Rightarrow> (nat \<times> string) list \<Rightarrow> (nat \<times> string) list \<times> nat" where
  "insert_or_replace v rows =
     (let rowid = new_rowid rows
      in (filter (\<lambda>(i, w). w \<noteq> v) rows @ [(rowid, v)], rowid))"

section \<open>CoverageData\<close>

text \<open>
  The attributes of a \<^verbatim>\<open>CoverageData\<close> object (sqldata.py, \<^verbatim>\<open>__init__\<close>, lines
  197-217), for one thread and one process: \<open>cd_dbs\<close> says whether \<^verbatim>\<open>self._dbs\<close>
  holds the \<^verbatim>\<open>SqliteDb\<close> of the thread. \<open>cd_store\<close> is the database behind
  \<^verbatim>\<open>self._filename\<close>: the contents of the data file, \<open>None\<close> when the file does not
  exist; with \<^verbatim>\<open>no_disk\<close> the file name is \<^verbatim>\<open>:memory:\<close>, no file ever exists, and
  the database lives in the connection of the \<^verbatim>\<open>SqliteDb\<close> object, so it is gone when
  that object is dropped from \<^verbatim>\<open>self._dbs\<close>.
\<close>

record CoverageData =
  cd_no_disk :: bool
  cd_store :: "database option"
  cd_dbs :: bool
  cd_file_map :: "string \<rightharpoonup> nat"
  cd_have_used :: bool
  cd_has_lines :: bool
  cd_has_arcs :: bool
  cd_current_context :: "string option"
  cd_current_context_id :: "nat option"
  cd_query_context_ids :: "nat list option"

definition init :: "bool \<Rightarrow> database option \<Rightarrow> CoverageData" where
  "init no_disk data_file =
     \<lparr> cd_no_disk = no_disk,
       cd_store = (if no_disk then None else data_file),
       cd_dbs = False,
       cd_file_map = Map.empty,
       cd_have_used = False,
       cd_has_lines = False,
       cd_has_arcs = False,
       cd_current_context = None,
       cd_current_context_id = None,
       cd_query_context_ids = None \<rparr>"

definition reset :: "CoverageData \<Rightarrow> CoverageData" where
  "reset s =
     s \<lparr> cd_store := (if cd_no_disk s then None else cd_store s),
         cd_dbs := False,
         cd_file_map := Map.empty,
         cd_have_used := False,
         cd_current_context_id := None \<rparr>"

text \<open>
  \<^verbatim>\<open>_create_db\<close>: the three meta rows hold the command line, the version and the
  time of creation; their values come from the environment and are left empty here.
\<close>

definition new_database :: database where
  "new_database =
     \<lparr> coverage_schema = [SCHEMA_VERSION],
       meta_rows = [(''sys_argv'', ''''), (''version'', ''''), (''when'', '''')],
       file_rows = [],
       context_rows = [],
       line_bits_rows = [],
       arc_rows = [],
       tracer_rows = [] \<rparr>"

definition create_db :: "CoverageData \<Rightarrow> CoverageData" where
  "create_db s = s \<lparr> cd_store := Some new_database, cd_dbs := True \<rparr>"

text \<open>
  \<^verbatim>\<open>bool(int(row[0]))\<close> on the text of a \<^verbatim>\<open>has_arcs\<close> row: the code only ever
  writes \<^verbatim>\<open>"0"\<close> or \<^verbatim>\<open>"1"\<close> (\<^verbatim>\<open>str(int(arcs))\<close>); any other text is
  taken here as one \<^verbatim>\<open>int()\<close> refuses.
\<close>

definition bool_of_text :: "string \<Rightarrow> error + bool" where
  "bool_of_text v = (if v = ''0'' then Inr False else if v = ''1'' then Inr True else Inl ValueError)"

definition read_db :: "CoverageData \<Rightarrow> error + CoverageData" where
  "read_db s =
     (case cd_store s of
        None \<Rightarrow> Inl (CoverageException ''Couldn't use data file'')
      | Some db \<Rightarrow>
          (case coverage_schema db of
             [] \<Rightarrow> Inl (CoverageException ''Data file doesn't seem to be a coverage data file'')
           | schema_version # _ \<Rightarrow>
               if schema_version \<noteq> SCHEMA_VERSION
               then Inl (CoverageException ''Couldn't use data file: wrong schema'')
               else
                 then_res
                   (fold_res
                      (\<lambda>row s1. then_res (bool_of_text row)
                         (\<lambda>b. Inr (s1 \<lparr> cd_has_arcs := b, cd_has_lines := \<not> b \<rparr>)))
                      (map snd (filter (\<lambda>(key, v). key = ''has_arcs'') (meta_rows db))) s)
                   (\<lambda>s2. Inr (fold (\<lambda>(file_id, path) s3.
                                      s3 \<lparr> cd_file_map := (cd_file_map s3)(path \<mapsto> file_id) \<rparr>)
                                   (file_rows db) s2))))"

definition open_db :: "CoverageData \<Rightarrow> error + CoverageData" where
  "open_db s = read_db (s \<lparr> cd_dbs := True \<rparr>)"

text \<open>
  \<^verbatim>\<open>_connect\<close> returns the \<^verbatim>\<open>SqliteDb\<close> of the thread, opening the data file if it
  exists and creating it otherwise. The model returns the object together with the
  database the connection sees.
\<close>

definition connect :: "CoverageData \<Rightarrow> error + CoverageData \<times> database" where
  "connect s =
     then_res
       (if \<not> cd_dbs s
        then (if cd_store s \<noteq> None then open_db s else Inr (create_db s))
        else Inr s)
       (\<lambda>s1. case cd_store s1 of
                None \<Rightarrow> Inl (CoverageException ''Couldn't use data file'')
              | Some db \<Rightarrow> Inr (s1, db))"

definition erase :: "CoverageData \<Rightarrow> CoverageData" where
  "erase s =
     (let s1 = reset s
      in if cd_no_disk s1 then s1 else s1 \<lparr> cd_store := None \<rparr>)"

definition start_using :: "CoverageData \<Rightarrow> CoverageData" where
  "start_using s =
     (let s1 = (if \<not> cd_have_used s then erase s else s)
      in s1 \<lparr> cd_have_used := True \<rparr>)"

definition read :: "CoverageData \<Rightarrow> error + CoverageData" where
  "read s = then_res (connect s) (\<lambda>(s1, db). Inr (s1 \<lparr> cd_have_used := True \<rparr>))"

definition has_arcs :: "CoverageData \<Rightarrow> bool" where
  "has_arcs s = cd_has_arcs s"

definition measured_files :: "CoverageData \<Rightarrow> string set" where
  "measured_files s = dom (cd_file_map s)"

subsection \<open>Serialization\<close>

text \<open>
  \<^verbatim>\<open>dumps\<close> (lines 314-331) returns \<^verbatim>\<open>b'z'\<close> followed by the compressed SQL dump of
  the database, and \<^verbatim>\<open>loads\<close> takes such bytes. The model has two kinds of bytes:
  \<open>Dumped db\<close>, what \<^verbatim>\<open>dumps\<close> returns on the database \<open>db\<close>, and \<open>Unrecognized\<close>,
  bytes that do not start with \<^verbatim>\<open>b'z'\<close>.

  \<^verbatim>\<open>loads\<close> (lines 333-356) puts a new \<^verbatim>\<open>SqliteDb\<close> for the file name in
  \<^verbatim>\<open>self._dbs\<close> and runs the script of the dump on it. With \<^verbatim>\<open>no_disk\<close> the new
  connection is a new, empty database in memory; otherwise it is the data file, created
  empty when it does not exist. The script creates the tables before it inserts the rows,
  so on a data file that has the tables already it fails with
  \<^verbatim>\<open>sqlite3.OperationalError\<close> (\<^verbatim>\<open>executescript\<close> is not under the \<^verbatim>\<open>try\<close> of
  \<^verbatim>\<open>SqliteDb.execute\<close>). After the script the database is the dumped one, and
  \<^verbatim>\<open>_read_db\<close> reads the schema version, the flags \<^verbatim>\<open>_has_arcs\<close> and
  \<^verbatim>\<open>_has_lines\<close> and the file map from it; the file map is not emptied first.
\<close>

datatype serial = Dumped database | Unrecognized

definition dumps :: "CoverageData \<Rightarrow> error + CoverageData \<times> serial" where
  "dumps s = then_res (connect s) (\<lambda>(s1, db). Inr (s1, Dumped db))"

definition loads :: "CoverageData \<Rightarrow> serial \<Rightarrow> error + CoverageData" where
  "loads s data =
     (case data of
        Unrecognized \<Rightarrow> Inl (CoverageException ''Unrecognized serialization'')
      | Dumped db \<Rightarrow>
          if \<not> cd_no_disk s \<and> cd_store s \<noteq> None then Inl OperationalError
          else then_res (read_db (s \<lparr> cd_store := Some db, cd_dbs := True \<rparr>))
                 (\<lambda>s1. Inr (s1 \<lparr> cd_have_used := True \<rparr>)))"

subsection \<open>Ids of files and contexts\<close>

text \<open>
  \<^verbatim>\<open>_file_id(filename, add=False)\<close> is \<^verbatim>\<open>self._file_map.get(filename)\<close> and changes
  nothing; \<^verbatim>\<open>_file_id(filename, add=True)\<close> adds the file first when the map does not
  have it, and so always returns an id.
\<close>

definition file_id :: "CoverageData \<Rightarrow> string \<Rightarrow> nat option" where
  "file_id s filename = cd_file_map s filename"

definition file_id_add :: "CoverageData \<Rightarrow> string \<Rightarrow> error + CoverageData \<times> nat" where
  "file_id_add s filename =
     (case cd_file_map s filename of
        Some i \<Rightarrow> Inr (s, i)
      | None \<Rightarrow>
          then_res (connect s) (\<lambda>(s1, db).
            let (rows, lastrowid) = insert_or_replace filename (file_rows db)
            in Inr (s1 \<lparr> cd_store := Some (db \<lparr> file_rows := rows \<rparr>),
                        cd_file_map := (cd_file_map s1)(filename \<mapsto> lastrowid) \<rparr>,
                    lastrowid)))"

definition context_id :: "CoverageData \<Rightarrow> string \<Rightarrow> error + CoverageData \<times> nat option" where
  "context_id s context =
     then_res (connect (start_using s)) (\<lambda>(s1, db).
       Inr (s1, map_option fst (find (\<lambda>(i, c). c = context) (context_rows db))))"

definition set_context :: "CoverageData \<Rightarrow> string \<Rightarrow> CoverageData" where
  "set_context s context =
     s \<lparr> cd_current_context := Some context, cd_current_context_id := None \<rparr>"

text \<open>
  \<^verbatim>\<open>_set_context_id\<close>; the result also carries the id it has stored in
  \<^verbatim>\<open>self._current_context_id\<close>.
\<close>

definition set_context_id :: "CoverageData \<Rightarrow> error + CoverageData \<times> nat" where
  "set_context_id s =
     (let context = (case cd_current_context s of None \<Rightarrow> [] | Some c \<Rightarrow> c)
      in then_res (context_id s context) (\<lambda>(s1, found).
           case found of
             Some i \<Rightarrow> Inr (s1 \<lparr> cd_current_context_id := Some i \<rparr>, i)
           | None \<Rightarrow>
               then_res (connect s1) (\<lambda>(s2, db).
                 let lastrowid = new_rowid (context_rows db)
                 in Inr (s2 \<lparr> cd_store :=
                                  Some (db \<lparr> context_rows := context_rows db @ [(lastrowid, context)] \<rparr>),
                              cd_current_context_id := Some lastrowid \<rparr>,
                         lastrowid))))"

subsection \<open>Choosing between lines and arcs\<close>

text \<open>
  \<^verbatim>\<open>_choose_lines_or_arcs(lines=False, arcs=False)\<close>. The \<^verbatim>\<open>insert into meta\<close> is
  a plain insert on a table with \<^verbatim>\<open>unique (key)\<close>: it fails when the key is there.
\<close>

definition choose_lines_or_arcs :: "CoverageData \<Rightarrow> bool \<Rightarrow> bool \<Rightarrow> error + CoverageData" where
  "choose_lines_or_arcs s lines arcs =
     (if \<not> (lines \<or> arcs) then Inl AssertionError
      else if lines \<and> arcs then Inl AssertionError
      else if lines \<and> cd_has_arcs s
        then Inl (CoverageException ''Can't add lines to existing arc data'')
      else if arcs \<and> cd_has_lines s
        then Inl (CoverageException ''Can't add arcs to existing line data'')
      else if \<not> cd_has_arcs s \<and> \<not> cd_has_lines s then
        then_res (connect (s \<lparr> cd_has_lines := lines, cd_has_arcs := arcs \<rparr>)) (\<lambda>(s1, db).
          if ''has_arcs'' \<in> set (map fst (meta_rows db))
          then Inl (CoverageException ''Couldn't use data file'')
          else Inr (s1 \<lparr> cd_store := Some (db \<lparr> meta_rows :=
                      meta_rows db @ [(''has_arcs'', if arcs then ''1'' else ''0'')] \<rparr>) \<rparr>))
      else Inr s)"

subsection \<open>Adding lines and arcs\<close>

text \<open>
  \<^verbatim>\<open>insert or replace into line_bits (file_id, context_id, numbits)\<close> on
  \<^verbatim>\<open>unique (file_id, context_id)\<close>.
\<close>

definition replace_line_bits ::
  "nat \<times> nat \<times> numbits \<Rightarrow> (nat \<times> nat \<times> numbits) list \<Rightarrow> (nat \<times> nat \<times> numbits) list" where
  "replace_line_bits row rows =
     filter (\<lambda>(f, c, n). \<not> (f = fst row \<and> c = fst (snd row))) rows @ [row]"

text \<open>
  \<^verbatim>\<open>add_lines(line_data)\<close>: the dictionary of dictionaries is the list of its items,
  each a file name with the line numbers that are the keys of its inner dictionary.
\<close>

text \<open>The body of the loop of \<^verbatim>\<open>add_lines\<close>, for one item of \<^verbatim>\<open>line_data\<close>.\<close>

definition add_lines_item :: "nat \<Rightarrow> string \<times> nat list \<Rightarrow> CoverageData \<Rightarrow> error + CoverageData" where
  "add_lines_item current_context_id item s =
     (case item of (filename, linenos) \<Rightarrow>
        then_res (file_id_add s filename) (\<lambda>(s1, fid).
        then_res (connect s1) (\<lambda>(s2, db).
          let existing = filter (\<lambda>(f, c, n). f = fid \<and> c = current_context_id)
                                (line_bits_rows db);
              linemap = (case existing of
                           [] \<Rightarrow> nums_to_numbits linenos
                         | (_, _, n) # _ \<Rightarrow> numbits_union (nums_to_numbits linenos) n)
          in Inr (s2 \<lparr> cd_store := Some (db \<lparr> line_bits_rows :=
                    replace_line_bits (fid, current_context_id, linemap)
                      (line_bits_rows db) \<rparr>) \<rparr>))))"

definition add_lines :: "CoverageData \<Rightarrow> (string \<times> nat list) list \<Rightarrow> error + CoverageData" where
  "add_lines s line_data =
     then_res (choose_lines_or_arcs (start_using s) True False) (\<lambda>s1.
       if line_data = [] then Inr s1
       else
         then_res (connect s1) (\<lambda>(s2, _).
         then_res (set_context_id s2) (\<lambda>(s3, current_context_id).
           fold_res (add_lines_item current_context_id) line_data s3)))"

text \<open>\<^verbatim>\<open>insert or ignore into arc\<close> on \<^verbatim>\<open>unique (file_id, context_id, fromno, tono)\<close>.\<close>

definition ignore_arc ::
  "nat \<times> nat \<times> int \<times> int \<Rightarrow> (nat \<times> nat \<times> int \<times> int) list \<Rightarrow> (nat \<times> nat \<times> int \<times> int) list" where
  "ignore_arc row rows = (if row \<in> set rows then rows else rows @ [row])"

text \<open>The body of the loop of \<^verbatim>\<open>add_arcs\<close>, for one item of \<^verbatim>\<open>arc_data\<close>.\<close>

definition add_arcs_item ::
  "nat \<Rightarrow> string \<times> (int \<times> int) list \<Rightarrow> CoverageData \<Rightarrow> error + CoverageData" where
  "add_arcs_item current_context_id item s =
     (case item of (filename, arc_list) \<Rightarrow>
        then_res (file_id_add s filename) (\<lambda>(s1, fid).
        then_res (connect s1) (\<lambda>(s2, db).
          let data = map (\<lambda>(fromno, tono). (fid, current_context_id, fromno, tono)) arc_list
          in Inr (s2 \<lparr> cd_store := Some (db \<lparr> arc_rows :=
                    fold ignore_arc data (arc_rows db) \<rparr>) \<rparr>))))"

definition add_arcs :: "CoverageData \<Rightarrow> (string \<times> (int \<times> int) list) list \<Rightarrow> error + CoverageData" where
  "add_arcs s arc_data =
     then_res (choose_lines_or_arcs (start_using s) False True) (\<lambda>s1.
       if arc_data = [] then Inr s1
       else
         then_res (connect s1) (\<lambda>(s2, _).
         then_res (set_context_id s2) (\<lambda>(s3, current_context_id).
           fold_res (add_arcs_item current_context_id) arc_data s3)))"

subsection \<open>File tracers\<close>

text \<open>
  \<^verbatim>\<open>file_tracer(filename)\<close>: \<open>None\<close> for a file that was not measured, the empty
  string for a measured file with no tracer row (\<^verbatim>\<open>row[0] or ""\<close> is the text of the
  row).
\<close>

definition file_tracer :: "CoverageData \<Rightarrow> string \<Rightarrow> error + CoverageData \<times> string option" where
  "file_tracer s filename =
     then_res (connect (start_using s)) (\<lambda>(s1, db).
       case file_id s1 filename of
         None \<Rightarrow> Inr (s1, None)
       | Some fid \<Rightarrow>
           (case find (\<lambda>(f, t). f = fid) (tracer_rows db) of
              Some (_, t) \<Rightarrow> Inr (s1, Some t)
            | None \<Rightarrow> Inr (s1, Some [])))"

text \<open>
  The messages of the two exceptions of \<^verbatim>\<open>add_file_tracers\<close>; of
  \<^verbatim>\<open>"Conflicting file tracer name for '%s': %r vs %r"\<close> the model keeps the part up to
  the file name (\<^verbatim>\<open>%r\<close>, Python's \<^verbatim>\<open>repr\<close>, is not modelled).
\<close>

definition unmeasured_file_msg :: "string \<Rightarrow> string" where
  "unmeasured_file_msg filename =
     ''Can't add file tracer data for unmeasured file '' @ [CHR 0x27] @ filename @ [CHR 0x27]"

definition conflicting_tracer_msg :: "string \<Rightarrow> string" where
  "conflicting_tracer_msg filename =
     ''Conflicting file tracer name for '' @ [CHR 0x27] @ filename @ [CHR 0x27]"

text \<open>
  \<^verbatim>\<open>add_file_tracers(file_tracers)\<close>, with the body of its loop first. The
  \<^verbatim>\<open>insert into tracer\<close> is a plain insert on the primary key \<^verbatim>\<open>file_id\<close>: on a
  file that has a row it fails, and \<^verbatim>\<open>SqliteDb.execute\<close> turns the failure into a
  \<^verbatim>\<open>CoverageException\<close>.
\<close>

definition add_file_tracers_item :: "string \<times> string \<Rightarrow> CoverageData \<Rightarrow> error + CoverageData" where
  "add_file_tracers_item item s =
     (case item of (filename, plugin_name) \<Rightarrow>
        (case file_id s filename of
           None \<Rightarrow> Inl (CoverageException (unmeasured_file_msg filename))
         | Some fid \<Rightarrow>
             then_res (file_tracer s filename) (\<lambda>(s1, existing_plugin).
               if existing_plugin \<noteq> None \<and> existing_plugin \<noteq> Some []
               then (if existing_plugin \<noteq> Some plugin_name
                     then Inl (CoverageException (conflicting_tracer_msg filename))
                     else Inr s1)
               else if plugin_name \<noteq> []
               then
                 then_res (connect s1) (\<lambda>(s2, db).
                   if fid \<in> set (map fst (tracer_rows db))
                   then Inl (CoverageException ''Couldn't use data file'')
                   else Inr (s2 \<lparr> cd_store := Some (db \<lparr> tracer_rows :=
                               tracer_rows db @ [(fid, plugin_name)] \<rparr>) \<rparr>))
               else Inr s1)))"

definition add_file_tracers :: "CoverageData \<Rightarrow> (string \<times> string) list \<Rightarrow> error + CoverageData" where
  "add_file_tracers s file_tracers =
     (if file_tracers = [] then Inr s
      else
        then_res (connect (start_using s)) (\<lambda>(s1, _).
          fold_res add_file_tracers_item file_tracers s1))"

definition touch_file :: "CoverageData \<Rightarrow> string \<Rightarrow> string \<Rightarrow> error + CoverageData" where
  "touch_file s filename plugin_name =
     (let s0 = start_using s
      in if \<not> cd_has_arcs s0 \<and> \<not> cd_has_lines s0
         then Inl (CoverageException ''Can't touch files in an empty CoverageData'')
         else
           then_res (file_id_add s0 filename) (\<lambda>(s1, _).
             if plugin_name \<noteq> [] then add_file_tracers s1 [(filename, plugin_name)]
             else Inr s1))"

subsection \<open>Query contexts\<close>

text \<open>
  \<^verbatim>\<open>_regexp(text, pattern)\<close> (sqldata.py, lines 1050-1052) returns
  \<^verbatim>\<open>re.search(text, pattern) is not None\<close>. Python's \<^verbatim>\<open>re.search(p, s)\<close> takes the
  regular expression first and the string to scan second, and raises \<^verbatim>\<open>re.error\<close>
  when \<open>p\<close> is no regular expression. The library function is the parameter
  \<open>re_search\<close>: \<open>re_search p s\<close> is \<open>Some b\<close> when \<^verbatim>\<open>re.search(p, s) is not None\<close>
  is \<open>b\<close>, and \<open>None\<close> when \<^verbatim>\<open>re.search(p, s)\<close> raises.

  \<^verbatim>\<open>SqliteDb._connect\<close> registers \<^verbatim>\<open>_regexp\<close> as the SQL function \<^verbatim>\<open>REGEXP\<close> of
  two arguments. SQLite evaluates the operator \<^verbatim>\<open>X REGEXP Y\<close> as the call
  \<^verbatim>\<open>regexp(Y, X)\<close>.
\<close>

definition regexp :: "(string \<Rightarrow> string \<Rightarrow> bool option) \<Rightarrow> string \<Rightarrow> string \<Rightarrow> bool option" where
  "regexp re_search text pattern = re_search text pattern"

definition regexp_operator ::
  "(string \<Rightarrow> string \<Rightarrow> bool option) \<Rightarrow> string \<Rightarrow> string \<Rightarrow> bool option" where
  "regexp_operator re_search X Y = regexp re_search Y X"

text \<open>
  The clause \<^verbatim>\<open>context regexp ? or context regexp ? ...\<close> that \<^verbatim>\<open>set_query_contexts\<close>
  builds, on one row of the context table: SQLite evaluates the right operand of
  \<^verbatim>\<open>or\<close> only when the left one is not true, and an exception raised by the Python
  function makes the statement fail.
\<close>

fun context_clause :: "(string \<Rightarrow> string \<Rightarrow> bool option) \<Rightarrow> string list \<Rightarrow> string \<Rightarrow> bool option" where
  "context_clause re_search [] context = Some False"
| "context_clause re_search (pattern # patterns) context =
     (case regexp_operator re_search context pattern of
        None \<Rightarrow> None
      | Some b \<Rightarrow> if b then Some True else context_clause re_search patterns context)"

text \<open>
  The \<^verbatim>\<open>select id from context where ...\<close> of \<^verbatim>\<open>set_query_contexts\<close> over the rows
  of the context table. \<^verbatim>\<open>con.execute\<close> runs the statement up to its first result
  row inside \<^verbatim>\<open>SqliteDb.execute\<close> (lines 1020-1028), which turns an error of SQLite
  into a \<^verbatim>\<open>CoverageException\<close>; the rows after the first are produced by
  \<^verbatim>\<open>cur.fetchall()\<close>, where the error reaches the caller as
  \<^verbatim>\<open>sqlite3.OperationalError\<close>. \<open>found\<close> says whether a row has been selected
  already.
\<close>

fun select_contexts ::
  "(string \<Rightarrow> string \<Rightarrow> bool option) \<Rightarrow> string list \<Rightarrow> (nat \<times> string) list \<Rightarrow> bool \<Rightarrow>
   error + nat list" where
  "select_contexts re_search patterns [] found = Inr []"
| "select_contexts re_search patterns ((i, context) # rows) found =
     (case context_clause re_search patterns context of
        None \<Rightarrow>
          Inl (if found then OperationalError else CoverageException ''Couldn't use data file'')
      | Some b \<Rightarrow>
          if b then then_res (select_contexts re_search patterns rows True) (\<lambda>ids. Inr (i # ids))
          else select_contexts re_search patterns rows found)"

text \<open>
  The special characters of Python's regular expressions are
  \<^verbatim>\<open>. ^ $ * + ? { } [ ] \ | ( )\<close>; every other character is ordinary and matches
  itself. So on a pattern of ordinary characters \<^verbatim>\<open>re.search(p, s)\<close> finds a match
  exactly when \<open>p\<close> occurs in \<open>s\<close>. \<open>literal_search\<close> is \<^verbatim>\<open>re.search\<close> on the
  patterns of ordinary characters; it refuses every other pattern, as \<^verbatim>\<open>re.search\<close>
  refuses the pattern \<^verbatim>\<open>(\<close>, and stands for \<^verbatim>\<open>re.search\<close> only on the concrete
  inputs below, whose patterns are ordinary or \<^verbatim>\<open>(\<close>.
\<close>

definition ordinary :: "string \<Rightarrow> bool" where
  "ordinary p = list_all (\<lambda>ch. ch \<notin> set (''.^$*+?{}[]|()'' @ [CHR 0x5C])) p"

definition literal_search :: "string \<Rightarrow> string \<Rightarrow> bool option" where
  "literal_search p s =
     (if ordinary p
      then Some (list_ex (\<lambda>i. take (length p) (drop i s) = p) [0 ..< Suc (length s)])
      else None)"

definition set_query_context :: "CoverageData \<Rightarrow> string \<Rightarrow> error + CoverageData" where
  "set_query_context s context =
     then_res (connect (start_using s)) (\<lambda>(s1, db).
       Inr (s1 \<lparr> cd_query_context_ids :=
                  Some (map fst (filter (\<lambda>(i, c). c = context) (context_rows db))) \<rparr>))"

definition set_query_contexts ::
  "(string \<Rightarrow> string \<Rightarrow> bool option) \<Rightarrow> CoverageData \<Rightarrow> string list \<Rightarrow> error + CoverageData" where
  "set_query_contexts re_search s contexts =
     (let s0 = start_using s
      in if contexts \<noteq> []
         then
           then_res (connect s0) (\<lambda>(s1, db).
           then_res (select_contexts re_search contexts (context_rows db) False) (\<lambda>ids.
             Inr (s1 \<lparr> cd_query_context_ids := Some ids \<rparr>)))
         else Inr (s0 \<lparr> cd_query_context_ids := None \<rparr>))"

subsection \<open>Queries\<close>

text \<open>The clause \<^verbatim>\<open>and context_id in (...)\<close>, added when query contexts are set.\<close>

definition in_query_contexts :: "CoverageData \<Rightarrow> nat \<Rightarrow> bool" where
  "in_query_contexts s c =
     (case cd_query_context_ids s of None \<Rightarrow> True | Some ids \<Rightarrow> c \<in> set ids)"

definition arcs :: "CoverageData \<Rightarrow> string \<Rightarrow> error + CoverageData \<times> (int \<times> int) list option" where
  "arcs s filename =
     then_res (connect (start_using s)) (\<lambda>(s1, db).
       case file_id s1 filename of
         None \<Rightarrow> Inr (s1, None)
       | Some fid \<Rightarrow>
           Inr (s1, Some (remdups (map (\<lambda>(f, c, fromno, tono). (fromno, tono))
                            (filter (\<lambda>(f, c, fromno, tono). f = fid \<and> in_query_contexts s1 c)
                                    (arc_rows db))))))"

text \<open>
  \<^verbatim>\<open>lines(filename)\<close> returns \<^verbatim>\<open>list(set(...))\<close>, a list with no duplicates in no
  particular order: the model returns the set.
\<close>

definition lines :: "CoverageData \<Rightarrow> string \<Rightarrow> error + CoverageData \<times> int set option" where
  "lines s filename =
     (let s0 = start_using s
      in then_res (if has_arcs s0 then arcs s0 filename else Inr (s0, None)) (\<lambda>(s1, arcs_result).
           case arcs_result of
             Some arc_list \<Rightarrow>
               Inr (s1, Some (set (filter (\<lambda>l. l > 0) (concat (map (\<lambda>(l1, l2). [l1, l2]) arc_list)))))
           | None \<Rightarrow>
               then_res (connect s1) (\<lambda>(s2, db).
                 case file_id s2 filename of
                   None \<Rightarrow> Inr (s2, None)
                 | Some fid \<Rightarrow>
                     let bitmaps = map (\<lambda>(f, c, n). n)
                                       (filter (\<lambda>(f, c, n). f = fid \<and> in_query_contexts s2 c)
                                               (line_bits_rows db))
                     in Inr (s2, Some (set (map int (concat (map numbits_to_nums bitmaps))))))))"

text \<open>
  A \<^verbatim>\<open>collections.defaultdict(list)\<close> as the list of its items: reading a key that is
  not there adds it with the empty list.
\<close>

definition dd_touch :: "'k \<Rightarrow> ('k \<times> 'v list) list \<Rightarrow> ('k \<times> 'v list) list" where
  "dd_touch k m = (if k \<in> set (map fst m) then m else m @ [(k, [])])"

definition dd_get :: "('k \<times> 'v list) list \<Rightarrow> 'k \<Rightarrow> 'v list" where
  "dd_get m k = (case map_of m k of None \<Rightarrow> [] | Some v \<Rightarrow> v)"

definition dd_append :: "'k \<Rightarrow> 'v \<Rightarrow> ('k \<times> 'v list) list \<Rightarrow> ('k \<times> 'v list) list" where
  "dd_append k v m = AList.update k (dd_get m k @ [v]) m"

definition dd_append_new :: "'k \<Rightarrow> 'v \<Rightarrow> ('k \<times> 'v list) list \<Rightarrow> ('k \<times> 'v list) list" where
  "dd_append_new k v m =
     (let m1 = dd_touch k m in if v \<in> set (dd_get m1 k) then m1 else dd_append k v m1)"

definition contexts_by_lineno ::
  "CoverageData \<Rightarrow> string \<Rightarrow> error + CoverageData \<times> (int \<times> string list) list" where
  "contexts_by_lineno s filename =
     then_res (connect (start_using s)) (\<lambda>(s1, db).
       case file_id s1 filename of
         None \<Rightarrow> Inr (s1, [])
       | Some fid \<Rightarrow>
           if has_arcs s1
           then
             Inr (s1,
               fold (\<lambda>(fromno, tono, context) m. dd_append_new tono context (dd_append_new fromno context m))
                 (concat (map (\<lambda>(f, c, fromno, tono).
                                 map (\<lambda>(i, context). (fromno, tono, context))
                                     (filter (\<lambda>(i, context). c = i) (context_rows db)))
                              (filter (\<lambda>(f, c, fromno, tono). f = fid \<and> in_query_contexts s1 c)
                                      (arc_rows db))))
                 [])
           else
             Inr (s1,
               fold (\<lambda>(numbits, context) m.
                       fold (\<lambda>lineno. dd_append (int lineno) context) (numbits_to_nums numbits) m)
                 (concat (map (\<lambda>(f, c, numbits).
                                 map (\<lambda>(i, context). (numbits, context))
                                     (filter (\<lambda>(i, context). c = i) (context_rows db)))
                              (filter (\<lambda>(f, c, numbits). f = fid \<and> in_query_contexts s1 c)
                                      (line_bits_rows db))))
                 []))"

definition measured_contexts :: "CoverageData \<Rightarrow> error + CoverageData \<times> string set" where
  "measured_contexts s =
     then_res (connect (start_using s)) (\<lambda>(s1, db). Inr (s1, set (map snd (context_rows db))))"

subsection \<open>Combining data files\<close>

text \<open>
  A Python dictionary is the list of its items in insertion order: \<^verbatim>\<open>d[k] = v\<close> is
  \<open>AList.update k v d\<close>, \<^verbatim>\<open>d.get(k)\<close> is \<open>map_of d k\<close>, and \<^verbatim>\<open>d[k]\<close> raises
  \<^verbatim>\<open>KeyError\<close> on a key that is not there.
\<close>

definition dict_of :: "('k \<times> 'v) list \<Rightarrow> ('k \<times> 'v) list" where
  "dict_of items = fold (\<lambda>(k, v). AList.update k v) items []"

definition subscript :: "('k \<times> 'v) list \<Rightarrow> 'k \<Rightarrow> error + 'v" where
  "subscript d k = (case map_of d k of None \<Rightarrow> Inl KeyError | Some v \<Rightarrow> Inr v)"

fun map_res :: "('a \<Rightarrow> error + 'b) \<Rightarrow> 'a list \<Rightarrow> error + 'b list" where
  "map_res f [] = Inr []"
| "map_res f (x # xs) = then_res (f x) (\<lambda>y. then_res (map_res f xs) (\<lambda>ys. Inr (y # ys)))"

text \<open>
  The rows of \<^verbatim>\<open>T inner join file on file.id = T.file_id inner join context on
  context.id = T.context_id\<close>, for \<^verbatim>\<open>T\<close> one of \<^verbatim>\<open>arc\<close> and \<^verbatim>\<open>line_bits\<close>, and of
  \<^verbatim>\<open>tracer inner join file on file.id = tracer.file_id\<close>.
\<close>

definition join_file_context :: "database \<Rightarrow> (nat \<times> nat \<times> 'a) list \<Rightarrow> (string \<times> string \<times> 'a) list" where
  "join_file_context db rows =
     concat (map (\<lambda>(f, c, x).
                    concat (map (\<lambda>(fi, path).
                                   map (\<lambda>(ci, context). (path, context, x))
                                       (filter (\<lambda>(ci, context). ci = c) (context_rows db)))
                                (filter (\<lambda>(fi, path). fi = f) (file_rows db))))
                 rows)"

definition join_tracer_file :: "database \<Rightarrow> (string \<times> string) list" where
  "join_tracer_file db =
     concat (map (\<lambda>(f, tracer).
                    map (\<lambda>(fi, path). (path, tracer))
                        (filter (\<lambda>(fi, path). fi = f) (file_rows db)))
                 (tracer_rows db))"

text \<open>\<^verbatim>\<open>insert or ignore into tracer (file_id, tracer)\<close> on the primary key \<^verbatim>\<open>file_id\<close>.\<close>

definition ignore_tracer :: "nat \<times> string \<Rightarrow> (nat \<times> string) list \<Rightarrow> (nat \<times> string) list" where
  "ignore_tracer row rows = (if fst row \<in> set (map fst rows) then rows else rows @ [row])"

text \<open>
  The second \<^verbatim>\<open>with\<close> block of \<^verbatim>\<open>update\<close> (sqldata.py, lines 615-711) writes
  to this object's database what the first block has read from the other one. Its parts,
  in the order of the source; \<open>aliases_map\<close> is \<^verbatim>\<open>aliases.map\<close>.

  \<^verbatim>\<open>this_tracers\<close> (lines 622-629): every path of the file table with the empty
  string, then the aliased path of every tracer row with its tracer.
\<close>

definition this_tracers_of :: "(string \<Rightarrow> string) \<Rightarrow> database \<Rightarrow> (string \<times> string) list" where
  "this_tracers_of aliases_map db =
     fold (\<lambda>(k, v). AList.update k v)
       (map (\<lambda>(path, tracer). (aliases_map path, tracer)) (join_tracer_file db))
       (dict_of (map (\<lambda>(i, path). (path, [])) (file_rows db)))"

text \<open>The body of the loop over \<^verbatim>\<open>files.values()\<close> that fills \<^verbatim>\<open>tracer_map\<close> (lines 653-663).\<close>

definition tracer_map_step ::
  "(string \<times> string) list \<Rightarrow> (string \<times> string) list \<Rightarrow> string \<Rightarrow>
   (string \<times> string) list \<Rightarrow> error + (string \<times> string) list" where
  "tracer_map_step this_tracers tracers path tracer_map =
     (let this_tracer = map_of this_tracers path;
          other_tracer = (case map_of tracers path of None \<Rightarrow> [] | Some t \<Rightarrow> t)
      in if this_tracer \<noteq> None \<and> this_tracer \<noteq> Some other_tracer
         then Inl (CoverageException (conflicting_tracer_msg path))
         else Inr (AList.update path other_tracer tracer_map))"

text \<open>The body of the loop over this object's \<^verbatim>\<open>line_bits\<close> rows (lines 680-684).\<close>

definition merge_line_row ::
  "(string \<Rightarrow> string) \<Rightarrow> string \<times> string \<times> numbits \<Rightarrow>
   ((string \<times> string) \<times> numbits) list \<Rightarrow> ((string \<times> string) \<times> numbits) list" where
  "merge_line_row aliases_map row line_dict =
     (case row of (path, context, numbits) \<Rightarrow>
        let key = (aliases_map path, context)
        in AList.update key
             (case map_of line_dict key of
                Some n \<Rightarrow> numbits_union n numbits
              | None \<Rightarrow> numbits) line_dict)"

text \<open>\<^verbatim>\<open>if arcs:\<close> (lines 687-695).\<close>

definition write_arcs ::
  "(string \<times> nat) list \<Rightarrow> (string \<times> nat) list \<Rightarrow> (string \<times> string \<times> int \<times> int) list \<Rightarrow>
   CoverageData \<Rightarrow> error + CoverageData" where
  "write_arcs file_ids context_ids arc_list s =
     then_res (choose_lines_or_arcs s False True) (\<lambda>s1.
     then_res (connect s1) (\<lambda>(s2, db).
     then_res
       (map_res (\<lambda>(file, context, fromno, tono).
                   then_res (subscript file_ids file) (\<lambda>f.
                   then_res (subscript context_ids context) (\<lambda>c.
                     Inr (f, c, fromno, tono))))
                arc_list)
       (\<lambda>rows. Inr (s2 \<lparr> cd_store := Some (db \<lparr> arc_rows :=
                            fold ignore_arc rows (arc_rows db) \<rparr>) \<rparr>))))"

text \<open>
  \<^verbatim>\<open>if lines:\<close> (lines 697-707): \<^verbatim>\<open>delete from line_bits\<close>, then a plain insert of
  every item of the dictionary, which the constraint \<^verbatim>\<open>unique (file_id, context_id)\<close>
  refuses when two rows get the same ids.
\<close>

definition write_lines ::
  "(string \<times> nat) list \<Rightarrow> (string \<times> nat) list \<Rightarrow> ((string \<times> string) \<times> numbits) list \<Rightarrow>
   CoverageData \<Rightarrow> error + CoverageData" where
  "write_lines file_ids context_ids line_dict s =
     then_res (choose_lines_or_arcs s True False) (\<lambda>s1.
     then_res (connect s1) (\<lambda>(s2, db).
     then_res
       (map_res (\<lambda>((file, context), numbits).
                   then_res (subscript file_ids file) (\<lambda>f.
                   then_res (subscript context_ids context) (\<lambda>c.
                     Inr (f, c, numbits))))
                line_dict)
       (\<lambda>rows. if \<not> distinct (map (\<lambda>(f, c, n). (f, c)) rows)
                 then Inl IntegrityError
                 else Inr (s2 \<lparr> cd_store := Some (db \<lparr> line_bits_rows := rows \<rparr>) \<rparr>))))"

text \<open>The \<^verbatim>\<open>insert or ignore into tracer\<close> of the items of \<^verbatim>\<open>tracer_map\<close> (lines 708-711).\<close>

definition write_tracers ::
  "(string \<times> nat) list \<Rightarrow> (string \<times> string) list \<Rightarrow> CoverageData \<Rightarrow> error + CoverageData" where
  "write_tracers file_ids tracer_map s =
     then_res (connect s) (\<lambda>(s1, db).
     then_res
       (map_res (\<lambda>(filename, tracer).
                   then_res (subscript file_ids filename) (\<lambda>f. Inr (f, tracer)))
                tracer_map)
       (\<lambda>rows. Inr (s1 \<lparr> cd_store := Some (db \<lparr> tracer_rows :=
                            fold ignore_tracer rows (tracer_rows db) \<rparr>) \<rparr>)))"

text \<open>
  The file and context rows created for the other object's files and contexts (lines
  632-647), and the dictionaries \<^verbatim>\<open>file_ids\<close> and \<^verbatim>\<open>context_ids\<close> read back from
  the two tables.
\<close>

definition insert_files_contexts :: "string list \<Rightarrow> string list \<Rightarrow> database \<Rightarrow> database" where
  "insert_files_contexts files_values contexts db =
     db \<lparr> file_rows := fold insert_or_ignore files_values (file_rows db),
          context_rows := fold insert_or_ignore contexts (context_rows db) \<rparr>"

definition file_ids_of :: "database \<Rightarrow> (string \<times> nat) list" where
  "file_ids_of db = dict_of (map (\<lambda>(i, path). (path, i)) (file_rows db))"

definition context_ids_of :: "database \<Rightarrow> (string \<times> nat) list" where
  "context_ids_of db = dict_of (map (\<lambda>(i, context). (context, i)) (context_rows db))"

definition merged_lines ::
  "(string \<Rightarrow> string) \<Rightarrow> database \<Rightarrow> ((string \<times> string) \<times> numbits) list \<Rightarrow>
   ((string \<times> string) \<times> numbits) list" where
  "merged_lines aliases_map db line_dict =
     fold (merge_line_row aliases_map) (join_file_context db (line_bits_rows db)) line_dict"

text \<open>The three writes at the end of the block (lines 687-711).\<close>

definition update_write_rows ::
  "(string \<times> nat) list \<Rightarrow> (string \<times> nat) list \<Rightarrow> (string \<times> string \<times> int \<times> int) list \<Rightarrow>
   ((string \<times> string) \<times> numbits) list \<Rightarrow> (string \<times> string) list \<Rightarrow>
   CoverageData \<Rightarrow> error + CoverageData" where
  "update_write_rows file_ids context_ids arc_list line_dict tracer_map s =
     then_res (if arc_list \<noteq> [] then write_arcs file_ids context_ids arc_list s else Inr s) (\<lambda>s1.
     then_res (if line_dict \<noteq> [] then write_lines file_ids context_ids line_dict s1 else Inr s1)
       (write_tracers file_ids tracer_map))"

text \<open>The block as a whole; \<open>files_values\<close> is \<^verbatim>\<open>files.values()\<close>.\<close>

definition update_write ::
  "(string \<Rightarrow> string) \<Rightarrow> CoverageData \<Rightarrow> string list \<Rightarrow> string list \<Rightarrow>
   (string \<times> string \<times> int \<times> int) list \<Rightarrow> ((string \<times> string) \<times> numbits) list \<Rightarrow>
   (string \<times> string) list \<Rightarrow> error + CoverageData" where
  "update_write aliases_map s0 files_values contexts arc_list line_dict tracers =
     then_res (connect s0) (\<lambda>(s1, db).
       let db2 = insert_files_contexts files_values contexts db
       in then_res (fold_res (tracer_map_step (this_tracers_of aliases_map db) tracers)
                      files_values [])
            (\<lambda>tracer_map.
               update_write_rows (file_ids_of db2) (context_ids_of db2) arc_list
                 (merged_lines aliases_map db2 line_dict) tracer_map
                 (s1 \<lparr> cd_store := Some db2 \<rparr>)))"

text \<open>
  What the first \<^verbatim>\<open>with\<close> block of \<^verbatim>\<open>update\<close> (lines 572-613) collects from the
  other object's database: \<^verbatim>\<open>files.values()\<close> (\<^verbatim>\<open>files[path]\<close> is
  \<^verbatim>\<open>aliases.map(path)\<close> for each path of the file table), \<^verbatim>\<open>contexts\<close>,
  \<^verbatim>\<open>arcs\<close>, \<^verbatim>\<open>lines\<close> and \<^verbatim>\<open>tracers\<close>.
\<close>

definition other_files_values :: "(string \<Rightarrow> string) \<Rightarrow> database \<Rightarrow> string list" where
  "other_files_values aliases_map odb =
     map snd (dict_of (map (\<lambda>(i, path). (path, aliases_map path)) (file_rows odb)))"

definition other_contexts :: "database \<Rightarrow> string list" where
  "other_contexts odb = map snd (context_rows odb)"

definition other_arcs :: "(string \<Rightarrow> string) \<Rightarrow> database \<Rightarrow> (string \<times> string \<times> int \<times> int) list" where
  "other_arcs aliases_map odb =
     map (\<lambda>(path, context, fromno, tono). (aliases_map path, context, fromno, tono))
         (join_file_context odb (arc_rows odb))"

definition other_lines :: "(string \<Rightarrow> string) \<Rightarrow> database \<Rightarrow> ((string \<times> string) \<times> numbits) list" where
  "other_lines aliases_map odb =
     dict_of (map (\<lambda>(path, context, numbits). ((aliases_map path, context), numbits))
                  (join_file_context odb (line_bits_rows odb)))"

definition other_tracers :: "(string \<Rightarrow> string) \<Rightarrow> database \<Rightarrow> (string \<times> string) list" where
  "other_tracers aliases_map odb =
     dict_of (map (\<lambda>(path, tracer). (aliases_map path, tracer)) (join_tracer_file odb))"

text \<open>
  \<^verbatim>\<open>update(other_data, aliases=None)\<close>; the result is this object and the other one,
  which \<^verbatim>\<open>other_data.read()\<close> may have opened. With no aliases,
  \<^verbatim>\<open>PathAliases().map\<close> returns every path as it is.
\<close>

definition update ::
  "(string \<Rightarrow> string) \<Rightarrow> CoverageData \<Rightarrow> CoverageData \<Rightarrow> error + CoverageData \<times> CoverageData" where
  "update aliases_map s other_data =
     (if cd_has_lines s \<and> cd_has_arcs other_data
        then Inl (CoverageException ''Can't combine arc data with line data'')
      else if cd_has_arcs s \<and> cd_has_lines other_data
        then Inl (CoverageException ''Can't combine line data with arc data'')
      else
        then_res (read other_data) (\<lambda>o1.
        then_res (connect o1) (\<lambda>(o2, odb).
        then_res (update_write aliases_map (start_using s)
                    (other_files_values aliases_map odb) (other_contexts odb)
                    (other_arcs aliases_map odb) (other_lines aliases_map odb)
                    (other_tracers aliases_map odb)) (\<lambda>s1.
        then_res (read (reset s1)) (\<lambda>s2. Inr (s2, o2))))))"

subsection \<open>Sequences of calls\<close>

text \<open>
  The methods of the public API of \<^verbatim>\<open>CoverageData\<close>, as the calls a client can make
  on one object (\<^verbatim>\<open>write\<close> does nothing). The value a query returns is dropped
  here; the object it leaves is kept.
\<close>

datatype call =
    Set_context string
  | Add_lines "(string \<times> nat list) list"
  | Add_arcs "(string \<times> (int \<times> int) list) list"
  | Add_file_tracers "(string \<times> string) list"
  | Touch_file string string
  | Update "string \<Rightarrow> string" CoverageData
  | Erase
  | Read
  | Write
  | Has_arcs
  | Measured_files
  | Measured_contexts
  | File_tracer string
  | Set_query_context string
  | Set_query_contexts "string list"
  | Lines string
  | Arcs string
  | Contexts_by_lineno string
  | Dumps
  | Loads serial

fun call_api ::
  "(string \<Rightarrow> string \<Rightarrow> bool option) \<Rightarrow> call \<Rightarrow> CoverageData \<Rightarrow> error + CoverageData" where
  "call_api re_search (Set_context context) s = Inr (set_context s context)"
| "call_api re_search (Add_lines line_data) s = add_lines s line_data"
| "call_api re_search (Add_arcs arc_data) s = add_arcs s arc_data"
| "call_api re_search (Add_file_tracers file_tracers) s = add_file_tracers s file_tracers"
| "call_api re_search (Touch_file filename plugin_name) s = touch_file s filename plugin_name"
| "call_api re_search (Update aliases_map other_data) s =
     then_res (update aliases_map s other_data) (\<lambda>(s1, other1). Inr s1)"
| "call_api re_search Erase s = Inr (erase s)"
| "call_api re_search Read s = read s"
| "call_api re_search Write s = Inr s"
| "call_api re_search Has_arcs s = Inr s"
| "call_api re_search Measured_files s = Inr s"
| "call_api re_search Measured_contexts s = then_res (measured_contexts s) (\<lambda>(s1, r). Inr s1)"
| "call_api re_search (File_tracer filename) s = then_res (file_tracer s filename) (\<lambda>(s1, r). Inr s1)"
| "call_api re_search (Set_query_context context) s = set_query_context s context"
| "call_api re_search (Set_query_contexts contexts) s = set_query_contexts re_search s contexts"
| "call_api re_search (Lines filename) s = then_res (lines s filename) (\<lambda>(s1, r). Inr s1)"
| "call_api re_search (Arcs filename) s = then_res (arcs s filename) (\<lambda>(s1, r). Inr s1)"
| "call_api re_search (Contexts_by_lineno filename) s =
     then_res (contexts_by_lineno s filename) (\<lambda>(s1, r). Inr s1)"
| "call_api re_search Dumps s = then_res (dumps s) (\<lambda>(s1, r). Inr s1)"
| "call_api re_search (Loads data) s = loads s data"

text \<open>
  A call that raises leaves the object as the statements before the \<^verbatim>\<open>raise\<close> have
  made it. \<open>rejected c e s\<close> is that object for the calls that are refused by a check
  made before they have written anything to the database: \<^verbatim>\<open>add_lines\<close> and
  \<^verbatim>\<open>add_arcs\<close> refused for the mode by \<^verbatim>\<open>_choose_lines_or_arcs\<close>, and
  \<^verbatim>\<open>touch_file\<close> on an object without a mode, all after \<^verbatim>\<open>_start_using\<close>;
  \<^verbatim>\<open>update\<close> refused for the modes of the two objects, and \<^verbatim>\<open>loads\<close> of
  unrecognized bytes, where the check is the first statement. Where a call raises later,
  the object it leaves is not modelled (\<open>None\<close>): the connection runs with
  \<^verbatim>\<open>journal_mode=off\<close>, under which SQLite does not define what the rollback of the
  open transaction does.
\<close>

fun rejected :: "call \<Rightarrow> error \<Rightarrow> CoverageData \<Rightarrow> CoverageData option" where
  "rejected (Add_lines line_data) e s =
     (if e = CoverageException ''Can't add lines to existing arc data''
      then Some (start_using s) else None)"
| "rejected (Add_arcs arc_data) e s =
     (if e = CoverageException ''Can't add arcs to existing line data''
      then Some (start_using s) else None)"
| "rejected (Touch_file filename plugin_name) e s =
     (if e = CoverageException ''Can't touch files in an empty CoverageData''
      then Some (start_using s) else None)"
| "rejected (Update aliases_map other_data) e s =
     (if e = CoverageException ''Can't combine arc data with line data'' \<or>
         e = CoverageException ''Can't combine line data with arc data''
      then Some s else None)"
| "rejected (Loads data) e s =
     (if e = CoverageException ''Unrecognized serialization'' then Some s else None)"
| "rejected c e s = None"

text \<open>
  The object after a sequence of calls, each of which returns or is rejected; the
  sequence ends with the exception of the first call that raises in another way.
\<close>

fun run ::
  "(string \<Rightarrow> string \<Rightarrow> bool option) \<Rightarrow> CoverageData \<Rightarrow> call list \<Rightarrow> error + CoverageData" where
  "run re_search s [] = Inr s"
| "run re_search s (c # calls) =
     (case call_api re_search c s of
        Inr s1 \<Rightarrow> run re_search s1 calls
      | Inl e \<Rightarrow>
          (case rejected c e s of
             Some s1 \<Rightarrow> run re_search s1 calls
           | None \<Rightarrow> Inl e))"

text \<open>The sequences of calls none of which is \<^verbatim>\<open>loads\<close>.\<close>

fun is_loads :: "call \<Rightarrow> bool" where
  "is_loads (Loads data) = True"
| "is_loads c = False"

definition without_loads :: "call list \<Rightarrow> bool" where
  "without_loads calls = list_all (\<lambda>c. \<not> is_loads c) calls"

section \<open>The mode of a store\<close>

text \<open>
  The flags \<^verbatim>\<open>_has_lines\<close> and \<^verbatim>\<open>_has_arcs\<close> of an object and the
  \<^verbatim>\<open>has_arcs\<close> rows of the meta table of its database change together in a few
  ways only; \<open>mstep\<close> lists them: nothing changes, or the database is dropped or created
  empty; the flags are read from the last \<^verbatim>\<open>has_arcs\<close> row; or a mode is chosen
  while both flags are off. A predicate is \<open>stable\<close> when every such step keeps it.
\<close>

definition mode_rows :: "database \<Rightarrow> string list" where
  "mode_rows db = map snd (filter (\<lambda>(key, v). key = ''has_arcs'') (meta_rows db))"

definition store_rows :: "CoverageData \<Rightarrow> string list option" where
  "store_rows s = map_option mode_rows (cd_store s)"

definition mode_text :: "bool \<Rightarrow> string" where
  "mode_text a = (if a then ''1'' else ''0'')"

definition mstep :: "CoverageData \<Rightarrow> CoverageData \<Rightarrow> bool" where
  "mstep s s' \<longleftrightarrow>
     (cd_has_lines s' = cd_has_lines s \<and> cd_has_arcs s' = cd_has_arcs s \<and>
        (store_rows s' = store_rows s \<or> store_rows s' = None \<or>
         (store_rows s = None \<and> store_rows s' = Some [])))
   \<or> (store_rows s' = store_rows s \<and>
        (\<exists>rows b. store_rows s = Some rows \<and> rows \<noteq> [] \<and> bool_of_text (last rows) = Inr b \<and>
                  cd_has_arcs s' = b \<and> cd_has_lines s' = (\<not> b)))
   \<or> (\<not> cd_has_lines s \<and> \<not> cd_has_arcs s \<and>
        (\<exists>a. cd_has_arcs s' = a \<and> cd_has_lines s' = (\<not> a) \<and> store_rows s' = Some [mode_text a]))"

definition stable :: "(CoverageData \<Rightarrow> bool) \<Rightarrow> bool" where
  "stable P \<longleftrightarrow> (\<forall>s s'. P s \<longrightarrow> mstep s s' \<longrightarrow> P s')"

definition locked :: "bool \<Rightarrow> CoverageData \<Rightarrow> bool" where
  "locked a s \<longleftrightarrow>
     cd_has_arcs s = a \<and> cd_has_lines s = (\<not> a) \<and>
     (case store_rows s of None \<Rightarrow> True | Some rows \<Rightarrow> rows = [] \<or> last rows = mode_text a)"

definition mode_ok :: "CoverageData \<Rightarrow> bool" where
  "mode_ok s \<longleftrightarrow> (\<not> cd_has_lines s \<and> \<not> cd_has_arcs s) \<or> locked True s \<or> locked False s"

lemma then_res_Inr: "then_res r f = Inr y \<longleftrightarrow> (\<exists>x. r = Inr x \<and> f x = Inr y)"
  by (cases r) (auto simp: then_res_def)

lemma then_res_simps [simp]: "then_res (Inl e) f = Inl e" "then_res (Inr x) f = f x"
  by (auto simp: then_res_def)

lemma fold_res_inv:
  assumes "fold_res f xs s = Inr s'" and "P s"
    and "\<And>x t t'. P t \<Longrightarrow> f x t = Inr t' \<Longrightarrow> P t'"
  shows "P s'"
  using assms(1,2)
proof (induction xs arbitrary: s)
  case Nil then show ?case by simp
next
  case (Cons x xs)
  then show ?case by (auto split: sum.splits intro: assms(3))
qed

lemma bool_of_text_mode: "bool_of_text v = Inr b \<longleftrightarrow> v = mode_text b"
  by (auto simp: bool_of_text_def mode_text_def)

lemma mode_text_eq [simp]: "mode_text a = mode_text b \<longleftrightarrow> a = b"
  by (auto simp: mode_text_def)

lemma stable_locked: "stable (locked a)"
  unfolding stable_def locked_def mstep_def
  by (auto simp: bool_of_text_mode split: option.splits)

lemma stable_mode_ok: "stable mode_ok"
  unfolding stable_def mode_ok_def locked_def mstep_def
  by (auto simp: bool_of_text_mode split: option.splits)

lemma mstep_refl: "mstep s s"
  by (simp add: mstep_def)

lemma mstep_reset: "mstep s (reset s)"
  by (simp add: mstep_def reset_def store_rows_def)

lemma mstep_erase: "mstep s (erase s)"
  by (simp add: mstep_def erase_def reset_def store_rows_def Let_def)

lemma stableD: "stable P \<Longrightarrow> P s \<Longrightarrow> mstep s s' \<Longrightarrow> P s'"
  by (auto simp: stable_def)


lemma fold_file_map:
  "fold (\<lambda>(file_id, path) s3. s3 \<lparr> cd_file_map := (cd_file_map s3)(path \<mapsto> file_id) \<rparr>) rows s =
   s \<lparr> cd_file_map := fold (\<lambda>(file_id, path) m. m(path \<mapsto> file_id)) rows (cd_file_map s) \<rparr>"
  by (induction rows arbitrary: s) auto

lemma fold_res_flags:
  "fold_res (\<lambda>row s1. then_res (bool_of_text row)
       (\<lambda>b. Inr (s1 \<lparr> cd_has_arcs := b, cd_has_lines := \<not> b \<rparr>))) rows s = Inr s' \<Longrightarrow>
   (rows = [] \<and> s' = s) \<or>
   (\<exists>b. rows \<noteq> [] \<and> bool_of_text (last rows) = Inr b \<and> s' = s \<lparr> cd_has_arcs := b, cd_has_lines := \<not> b \<rparr>)"
proof (induction rows arbitrary: s)
  case Nil
  then show ?case by simp
next
  case (Cons r rows)
  from Cons.prems obtain b where b: "bool_of_text r = Inr b"
    and rest: "fold_res (\<lambda>row s1. then_res (bool_of_text row)
       (\<lambda>b. Inr (s1 \<lparr> cd_has_arcs := b, cd_has_lines := \<not> b \<rparr>))) rows
         (s \<lparr> cd_has_arcs := b, cd_has_lines := \<not> b \<rparr>) = Inr s'"
    by (auto simp: then_res_Inr split: sum.splits)
  from Cons.IH [OF rest] show ?case using b by auto
qed

lemma read_db_Inr:
  assumes "read_db s = Inr s'"
  shows "\<exists>db. cd_store s = Some db \<and> cd_store s' = Some db \<and> cd_dbs s' = cd_dbs s \<and>
           cd_no_disk s' = cd_no_disk s \<and> cd_have_used s' = cd_have_used s \<and>
           cd_current_context s' = cd_current_context s \<and>
           cd_current_context_id s' = cd_current_context_id s \<and>
           cd_query_context_ids s' = cd_query_context_ids s \<and>
           cd_file_map s' = fold (\<lambda>(file_id, path) m. m(path \<mapsto> file_id)) (file_rows db) (cd_file_map s) \<and>
           mstep s s'"
proof -
  from assms obtain db where db: "cd_store s = Some db"
    by (auto simp: read_db_def split: option.splits)
  from assms db obtain s2 where
    s2: "fold_res (\<lambda>row s1. then_res (bool_of_text row)
           (\<lambda>b. Inr (s1 \<lparr> cd_has_arcs := b, cd_has_lines := \<not> b \<rparr>))) (mode_rows db) s = Inr s2"
    and s': "s' = s2 \<lparr> cd_file_map := fold (\<lambda>(file_id, path) m. m(path \<mapsto> file_id)) (file_rows db) (cd_file_map s2) \<rparr>"
    by (auto simp: read_db_def then_res_Inr fold_file_map mode_rows_def split: list.splits if_splits)
  from fold_res_flags [OF s2] show ?thesis
    using db s' by (auto simp: mstep_def store_rows_def)
qed

lemma connect_Inr:
  assumes "connect s = Inr (s', db)"
  shows "cd_store s' = Some db \<and> cd_dbs s' \<and> mstep s s' \<and> cd_no_disk s' = cd_no_disk s \<and>
         cd_have_used s' = cd_have_used s"
proof (cases "cd_dbs s")
  case True
  with assms show ?thesis
    by (auto simp: connect_def mstep_refl split: option.splits)
next
  case False
  show ?thesis
  proof (cases "cd_store s")
    case None
    with False assms show ?thesis
      by (auto simp: connect_def create_db_def mstep_def store_rows_def mode_rows_def new_database_def)
  next
    case (Some d)
    with False assms have r: "read_db (s \<lparr> cd_dbs := True \<rparr>) = Inr s'" and st: "cd_store s' = Some db"
      by (auto simp: connect_def open_db_def then_res_Inr split: option.splits)
    from read_db_Inr [OF r] st show ?thesis
      by (auto simp: mstep_def store_rows_def)
  qed
qed

lemma mstep_start_using: "mstep s (start_using s)"
  by (simp add: mstep_def start_using_def erase_def reset_def store_rows_def Let_def)

lemma mstep_store:
  "cd_store s = Some db \<Longrightarrow> meta_rows db' = meta_rows db \<Longrightarrow> cd_store s' = Some db' \<Longrightarrow>
   cd_has_lines s' = cd_has_lines s \<Longrightarrow> cd_has_arcs s' = cd_has_arcs s \<Longrightarrow> mstep s s'"
  by (simp add: mstep_def store_rows_def mode_rows_def)

lemma mstep_fields:
  "cd_store s' = cd_store s \<Longrightarrow>
   cd_has_lines s' = cd_has_lines s \<Longrightarrow> cd_has_arcs s' = cd_has_arcs s \<Longrightarrow> mstep s s'"
  by (simp add: mstep_def store_rows_def mode_rows_def)

lemma stable_connect: "stable P \<Longrightarrow> P s \<Longrightarrow> connect s = Inr (s', db) \<Longrightarrow> P s'"
  using connect_Inr stableD by blast

lemma stable_start_using: "stable P \<Longrightarrow> P s \<Longrightarrow> P (start_using s)"
  using mstep_start_using stableD by blast

lemma choose_Inr:
  assumes "choose_lines_or_arcs s l a = Inr s'"
  shows "mstep s s' \<and> cd_has_lines s' = l \<and> cd_has_arcs s' = a"
proof -
  from assms have la: "l = (\<not> a)"
    by (auto simp: choose_lines_or_arcs_def split: if_splits)
  show ?thesis
  proof (cases "\<not> cd_has_arcs s \<and> \<not> cd_has_lines s")
    case False
    with assms la show ?thesis
      by (auto simp: choose_lines_or_arcs_def mstep_refl split: if_splits)
  next
    case True
    with assms la obtain s1 db where
      c: "connect (s \<lparr> cd_has_lines := l, cd_has_arcs := a \<rparr>) = Inr (s1, db)"
      and nk: "''has_arcs'' \<notin> set (map fst (meta_rows db))"
      and s': "s' = s1 \<lparr> cd_store := Some (db \<lparr> meta_rows := meta_rows db @ [(''has_arcs'', if a then ''1'' else ''0'')] \<rparr>) \<rparr>"
      by (auto simp: choose_lines_or_arcs_def then_res_Inr split: if_splits)
    from nk have mr: "mode_rows db = []"
      by (force simp: mode_rows_def filter_empty_conv)
    from connect_Inr [OF c] have st: "cd_store s1 = Some db"
      and ms: "mstep (s \<lparr> cd_has_lines := l, cd_has_arcs := a \<rparr>) s1" by auto
    from ms st mr have fl: "cd_has_lines s1 = l \<and> cd_has_arcs s1 = a"
      by (auto simp: mstep_def store_rows_def la)
    show ?thesis using True fl s' mr la
      by (auto simp: mstep_def store_rows_def mode_rows_def mode_text_def)
  qed
qed


lemma stable_store:
  "stable P \<Longrightarrow> P s \<Longrightarrow> cd_store s = Some db \<Longrightarrow> meta_rows db' = meta_rows db \<Longrightarrow>
   cd_store s' = Some db' \<Longrightarrow> cd_has_lines s' = cd_has_lines s \<Longrightarrow>
   cd_has_arcs s' = cd_has_arcs s \<Longrightarrow> P s'"
  using mstep_store stableD by blast

lemma stable_fields:
  "stable P \<Longrightarrow> P s \<Longrightarrow> cd_store s' = cd_store s \<Longrightarrow> cd_has_lines s' = cd_has_lines s \<Longrightarrow>
   cd_has_arcs s' = cd_has_arcs s \<Longrightarrow> P s'"
  using mstep_fields stableD by blast

lemma stable_choose: "stable P \<Longrightarrow> P s \<Longrightarrow> choose_lines_or_arcs s l a = Inr s' \<Longrightarrow> P s'"
  using choose_Inr stableD by blast

lemma stable_file_id_add:
  assumes "stable P" "P s" "file_id_add s filename = Inr (s', i)"
  shows "P s'"
proof (cases "cd_file_map s filename")
  case (Some j)
  with assms show ?thesis by (simp add: file_id_add_def)
next
  case None
  with assms(3) obtain s1 db where c: "connect s = Inr (s1, db)"
    and s': "s' = s1 \<lparr> cd_store := Some (db \<lparr> file_rows := fst (insert_or_replace filename (file_rows db)) \<rparr>),
                   cd_file_map := (cd_file_map s1)(filename \<mapsto> snd (insert_or_replace filename (file_rows db))) \<rparr>"
    by (auto simp: file_id_add_def then_res_Inr case_prod_beta Let_def)
  have "P s1" using stable_connect [OF assms(1,2) c] .
  moreover have "cd_store s1 = Some db" using connect_Inr [OF c] by simp
  ultimately show ?thesis
    unfolding s' by (rule stable_store [OF assms(1)]) simp_all
qed

lemma stable_context_id:
  "stable P \<Longrightarrow> P s \<Longrightarrow> context_id s context = Inr (s', r) \<Longrightarrow> P s'"
  by (auto simp: context_id_def then_res_Inr intro: stable_connect stable_start_using)

lemma stable_set_context_id:
  assumes "stable P" "P s" "set_context_id s = Inr (s', i)"
  shows "P s'"
proof -
  from assms(3) obtain s1 found where
    c: "context_id s (case cd_current_context s of None \<Rightarrow> [] | Some c \<Rightarrow> c) = Inr (s1, found)"
    by (auto simp: set_context_id_def then_res_Inr Let_def)
  have p1: "P s1" using stable_context_id [OF assms(1,2) c] .
  show ?thesis
  proof (cases found)
    case (Some j)
    with assms(3) c have "s' = s1 \<lparr> cd_current_context_id := Some j \<rparr>"
      by (auto simp: set_context_id_def then_res_Inr Let_def)
    then show ?thesis using p1 by (auto intro: stable_fields [OF assms(1)])
  next
    case None
    with assms(3) c obtain s2 db where c2: "connect s1 = Inr (s2, db)"
      and s': "s' = s2 \<lparr> cd_store := Some (db \<lparr> context_rows := context_rows db @
                     [(new_rowid (context_rows db), case cd_current_context s of None \<Rightarrow> [] | Some c \<Rightarrow> c)] \<rparr>),
                 cd_current_context_id := Some (new_rowid (context_rows db)) \<rparr>"
      by (auto simp: set_context_id_def then_res_Inr Let_def)
    have "P s2" using stable_connect [OF assms(1) p1 c2] .
    moreover have "cd_store s2 = Some db" using connect_Inr [OF c2] by simp
    ultimately show ?thesis
      unfolding s' by (rule stable_store [OF assms(1)]) simp_all
  qed
qed



lemma stable_add_lines_item:
  assumes "stable P" "P s" "add_lines_item cid item s = Inr s'"
  shows "P s'"
proof -
  obtain filename linenos where x: "item = (filename, linenos)" by (cases item)
  from assms(3) x obtain s5 fid s6 db rows where f5: "file_id_add s filename = Inr (s5, fid)"
    and c6: "connect s5 = Inr (s6, db)"
    and t': "s' = s6 \<lparr> cd_store := Some (db \<lparr> line_bits_rows := rows \<rparr>) \<rparr>"
    by (auto simp: add_lines_item_def then_res_Inr Let_def)
  have "P s6"
    using stable_connect [OF assms(1) stable_file_id_add [OF assms(1,2) f5] c6] .
  moreover have "cd_store s6 = Some db" using connect_Inr [OF c6] by simp
  ultimately show "P s'"
    unfolding t' by (rule stable_store [OF assms(1)]) simp_all
qed

lemma stable_add_arcs_item:
  assumes "stable P" "P s" "add_arcs_item cid item s = Inr s'"
  shows "P s'"
proof -
  obtain filename arc_list where x: "item = (filename, arc_list)" by (cases item)
  from assms(3) x obtain s5 fid s6 db rows where f5: "file_id_add s filename = Inr (s5, fid)"
    and c6: "connect s5 = Inr (s6, db)"
    and t': "s' = s6 \<lparr> cd_store := Some (db \<lparr> arc_rows := rows \<rparr>) \<rparr>"
    by (auto simp: add_arcs_item_def then_res_Inr Let_def)
  have "P s6"
    using stable_connect [OF assms(1) stable_file_id_add [OF assms(1,2) f5] c6] .
  moreover have "cd_store s6 = Some db" using connect_Inr [OF c6] by simp
  ultimately show "P s'"
    unfolding t' by (rule stable_store [OF assms(1)]) simp_all
qed

lemma stable_add_lines:
  assumes "stable P" "P s" "add_lines s line_data = Inr s'"
  shows "P s'"
proof -
  from assms(3) obtain s1 where ch: "choose_lines_or_arcs (start_using s) True False = Inr s1"
    and rest: "(if line_data = [] then Inr s1
       else then_res (connect s1) (\<lambda>(s2, _).
         then_res (set_context_id s2) (\<lambda>(s3, current_context_id).
           fold_res (add_lines_item current_context_id) line_data s3))) = Inr s'"
    by (auto simp: add_lines_def then_res_Inr)
  have p1: "P s1"
    using stable_choose [OF assms(1) stable_start_using [OF assms(1,2)] ch] .
  show ?thesis
  proof (cases "line_data = []")
    case True
    with rest p1 show ?thesis by simp
  next
    case False
    with rest obtain s2 d2 s3 cid where c2: "connect s1 = Inr (s2, d2)"
      and sc: "set_context_id s2 = Inr (s3, cid)"
      and fr: "fold_res (add_lines_item cid) line_data s3 = Inr s'"
      by (auto simp: then_res_Inr)
    have p3: "P s3"
      using stable_set_context_id [OF assms(1) stable_connect [OF assms(1) p1 c2] sc] .
    show ?thesis
      by (rule fold_res_inv [where P = P, OF fr p3]) (rule stable_add_lines_item [OF assms(1)])
  qed
qed

lemma stable_add_arcs:
  assumes "stable P" "P s" "add_arcs s arc_data = Inr s'"
  shows "P s'"
proof -
  from assms(3) obtain s1 where ch: "choose_lines_or_arcs (start_using s) False True = Inr s1"
    and rest: "(if arc_data = [] then Inr s1
       else then_res (connect s1) (\<lambda>(s2, _).
         then_res (set_context_id s2) (\<lambda>(s3, current_context_id).
           fold_res (add_arcs_item current_context_id) arc_data s3))) = Inr s'"
    by (auto simp: add_arcs_def then_res_Inr)
  have p1: "P s1"
    using stable_choose [OF assms(1) stable_start_using [OF assms(1,2)] ch] .
  show ?thesis
  proof (cases "arc_data = []")
    case True
    with rest p1 show ?thesis by simp
  next
    case False
    with rest obtain s2 d2 s3 cid where c2: "connect s1 = Inr (s2, d2)"
      and sc: "set_context_id s2 = Inr (s3, cid)"
      and fr: "fold_res (add_arcs_item cid) arc_data s3 = Inr s'"
      by (auto simp: then_res_Inr)
    have p3: "P s3"
      using stable_set_context_id [OF assms(1) stable_connect [OF assms(1) p1 c2] sc] .
    show ?thesis
      by (rule fold_res_inv [where P = P, OF fr p3]) (rule stable_add_arcs_item [OF assms(1)])
  qed
qed


lemma then_resE:
  assumes "then_res r f = Inr y"
  obtains x where "r = Inr x" and "f x = Inr y"
  using assms by (cases r) (auto simp: then_res_def)

lemma file_tracer_Inr:
  "file_tracer s filename = Inr (s', r) \<Longrightarrow> \<exists>db. connect (start_using s) = Inr (s', db)"
  by (auto simp: file_tracer_def elim!: then_resE split: option.splits prod.splits)

lemma stable_file_tracer:
  "stable P \<Longrightarrow> P s \<Longrightarrow> file_tracer s filename = Inr (s', r) \<Longrightarrow> P s'"
  by (blast dest: file_tracer_Inr intro: stable_connect stable_start_using)

lemma stable_add_file_tracers_item:
  assumes "stable P" "P s" "add_file_tracers_item item s = Inr s'"
  shows "P s'"
proof -
  obtain filename plugin_name where x: "item = (filename, plugin_name)" by (cases item)
  from assms(3) x obtain fid where fid: "file_id s filename = Some fid"
    by (auto simp: add_file_tracers_item_def split: option.splits)
  show ?thesis
  proof (cases "file_tracer s filename")
    case (Inl e)
    with assms(3) x fid show ?thesis by (simp add: add_file_tracers_item_def)
  next
    case (Inr y)
    obtain s1 ex where y: "y = (s1, ex)" by (cases y)
    have p1: "P s1" using stable_file_tracer [OF assms(1,2)] Inr y by simp
    show ?thesis
    proof (cases "s' = s1")
      case True
      with p1 show ?thesis by simp
    next
      case False
      with assms(3) x fid Inr y obtain s2 db where c: "connect s1 = Inr (s2, db)"
        and s': "s' = s2 \<lparr> cd_store := Some (db \<lparr> tracer_rows := tracer_rows db @ [(fid, plugin_name)] \<rparr>) \<rparr>"
        by (auto simp: add_file_tracers_item_def elim!: then_resE split: if_splits)
      have "P s2" using stable_connect [OF assms(1) p1 c] .
      moreover have "cd_store s2 = Some db" using connect_Inr [OF c] by simp
      ultimately show ?thesis
        unfolding s' by (rule stable_store [OF assms(1)]) simp_all
    qed
  qed
qed

lemma stable_add_file_tracers:
  assumes "stable P" "P s" "add_file_tracers s file_tracers = Inr s'"
  shows "P s'"
proof (cases "file_tracers = []")
  case True
  with assms show ?thesis by (simp add: add_file_tracers_def)
next
  case False
  with assms(3) obtain s1 db where c: "connect (start_using s) = Inr (s1, db)"
    and fr: "fold_res add_file_tracers_item file_tracers s1 = Inr s'"
    by (auto simp: add_file_tracers_def elim!: then_resE)
  have p1: "P s1" using stable_connect [OF assms(1) stable_start_using [OF assms(1,2)] c] .
  show ?thesis
    by (rule fold_res_inv [where P = P, OF fr p1]) (rule stable_add_file_tracers_item [OF assms(1)])
qed

lemma stable_touch_file:
  assumes "stable P" "P s" "touch_file s filename plugin_name = Inr s'"
  shows "P s'"
proof -
  from assms(3) obtain s1 i where f: "file_id_add (start_using s) filename = Inr (s1, i)"
    and rest: "(if plugin_name \<noteq> [] then add_file_tracers s1 [(filename, plugin_name)] else Inr s1) = Inr s'"
    by (auto simp: touch_file_def Let_def elim!: then_resE split: if_splits)
  have p1: "P s1" using stable_file_id_add [OF assms(1) stable_start_using [OF assms(1,2)] f] .
  from rest show ?thesis
    using p1 stable_add_file_tracers [OF assms(1) p1] by (auto split: if_splits)
qed

lemma stable_query_ids: "stable P \<Longrightarrow> P s \<Longrightarrow> P (s \<lparr> cd_query_context_ids := x \<rparr>)"
  by (erule stable_fields) simp_all

lemma stable_set_query_context:
  assumes "stable P" "P s" "set_query_context s context = Inr s'"
  shows "P s'"
proof -
  from assms(3) obtain s1 db ids where c: "connect (start_using s) = Inr (s1, db)"
    and s': "s' = s1 \<lparr> cd_query_context_ids := ids \<rparr>"
    by (auto simp: set_query_context_def elim!: then_resE)
  have "P s1" using stable_connect [OF assms(1) stable_start_using [OF assms(1,2)] c] .
  then show ?thesis unfolding s' by (rule stable_query_ids [OF assms(1)])
qed

lemma stable_set_query_contexts:
  assumes "stable P" "P s" "set_query_contexts re_search s contexts = Inr s'"
  shows "P s'"
proof (cases "contexts = []")
  case True
  with assms(3) have "s' = (start_using s) \<lparr> cd_query_context_ids := None \<rparr>"
    by (simp add: set_query_contexts_def Let_def)
  then show ?thesis
    using stable_query_ids [OF assms(1) stable_start_using [OF assms(1,2)]] by simp
next
  case False
  with assms(3) obtain s1 db ids where c: "connect (start_using s) = Inr (s1, db)"
    and s': "s' = s1 \<lparr> cd_query_context_ids := ids \<rparr>"
    by (auto simp: set_query_contexts_def Let_def then_res_Inr)
  have "P s1" using stable_connect [OF assms(1) stable_start_using [OF assms(1,2)] c] .
  then show ?thesis unfolding s' by (rule stable_query_ids [OF assms(1)])
qed

lemma arcs_Inr:
  "arcs s filename = Inr (s', r) \<Longrightarrow> \<exists>db. connect (start_using s) = Inr (s', db)"
  by (auto simp: arcs_def elim!: then_resE split: option.splits)

lemma stable_arcs:
  "stable P \<Longrightarrow> P s \<Longrightarrow> arcs s filename = Inr (s', r) \<Longrightarrow> P s'"
  by (blast dest: arcs_Inr intro: stable_connect stable_start_using)

lemma stable_lines:
  assumes "stable P" "P s" "lines s filename = Inr (s', r)"
  shows "P s'"
proof -
  let ?s0 = "start_using s"
  have p0: "P ?s0" using stable_start_using [OF assms(1,2)] .
  obtain s1 ar where
    a: "(if has_arcs ?s0 then arcs ?s0 filename else Inr (?s0, None)) = Inr (s1, ar)"
    using assms(3) by (cases "if has_arcs ?s0 then arcs ?s0 filename else Inr (?s0, None)")
      (auto simp: lines_def Let_def)
  have rest: "ar \<noteq> None \<and> s' = s1 \<or> (\<exists>db. connect s1 = Inr (s', db))"
  proof (cases ar)
    case (Some arc_list)
    with assms(3) a show ?thesis by (simp add: lines_def Let_def)
  next
    case None
    show ?thesis
    proof (cases "connect s1")
      case (Inl e)
      with assms(3) a None show ?thesis by (simp add: lines_def Let_def)
    next
      case (Inr x)
      obtain s2 db where x: "x = (s2, db)" by (cases x)
      from assms(3) a None Inr x have "s2 = s'"
        by (simp add: lines_def Let_def split: option.splits)
      with Inr x show ?thesis by simp
    qed
  qed
  have p1: "P s1"
    using a stable_arcs [OF assms(1) p0] p0 by (auto split: if_splits)
  from rest show ?thesis
    using p1 stable_connect [OF assms(1) p1] by auto
qed

lemma contexts_by_lineno_Inr:
  assumes "contexts_by_lineno s filename = Inr (s', r)"
  shows "\<exists>db. connect (start_using s) = Inr (s', db)"
proof (cases "connect (start_using s)")
  case (Inl e)
  with assms show ?thesis by (simp add: contexts_by_lineno_def)
next
  case (Inr x)
  obtain s1 db where x: "x = (s1, db)" by (cases x)
  from assms Inr x have "s1 = s'"
    by (simp add: contexts_by_lineno_def split: option.splits if_splits)
  with Inr x show ?thesis by simp
qed

lemma stable_contexts_by_lineno:
  "stable P \<Longrightarrow> P s \<Longrightarrow> contexts_by_lineno s filename = Inr (s', r) \<Longrightarrow> P s'"
  by (blast dest: contexts_by_lineno_Inr intro: stable_connect stable_start_using)

lemma stable_measured_contexts:
  "stable P \<Longrightarrow> P s \<Longrightarrow> measured_contexts s = Inr (s', r) \<Longrightarrow> P s'"
  by (auto simp: measured_contexts_def elim!: then_resE
      intro: stable_connect stable_start_using)

lemma stable_have_used: "stable P \<Longrightarrow> P s \<Longrightarrow> P (s \<lparr> cd_have_used := x \<rparr>)"
  by (erule stable_fields) simp_all

lemma stable_read:
  assumes "stable P" "P s" "read s = Inr s'"
  shows "P s'"
proof -
  from assms(3) obtain s1 db where c: "connect s = Inr (s1, db)"
    and s': "s' = s1 \<lparr> cd_have_used := True \<rparr>"
    by (auto simp: read_def elim!: then_resE)
  have "P s1" using stable_connect [OF assms(1,2) c] .
  then show ?thesis unfolding s' by (rule stable_have_used [OF assms(1)])
qed

lemma stable_write_arcs:
  assumes "stable P" "P s" "write_arcs file_ids context_ids arc_list s = Inr s'"
  shows "P s'"
proof -
  from assms(3) obtain s1 s2 db rows where ch: "choose_lines_or_arcs s False True = Inr s1"
    and c: "connect s1 = Inr (s2, db)"
    and s': "s' = s2 \<lparr> cd_store := Some (db \<lparr> arc_rows := rows \<rparr>) \<rparr>"
    by (auto simp: write_arcs_def elim!: then_resE)
  have "P s2" using stable_connect [OF assms(1) stable_choose [OF assms(1,2) ch] c] .
  moreover have "cd_store s2 = Some db" using connect_Inr [OF c] by simp
  ultimately show ?thesis
    unfolding s' by (rule stable_store [OF assms(1)]) simp_all
qed

lemma stable_write_lines:
  assumes "stable P" "P s" "write_lines file_ids context_ids line_dict s = Inr s'"
  shows "P s'"
proof -
  from assms(3) obtain s1 s2 db rows where ch: "choose_lines_or_arcs s True False = Inr s1"
    and c: "connect s1 = Inr (s2, db)"
    and s': "s' = s2 \<lparr> cd_store := Some (db \<lparr> line_bits_rows := rows \<rparr>) \<rparr>"
    by (auto simp: write_lines_def elim!: then_resE split: if_splits)
  have "P s2" using stable_connect [OF assms(1) stable_choose [OF assms(1,2) ch] c] .
  moreover have "cd_store s2 = Some db" using connect_Inr [OF c] by simp
  ultimately show ?thesis
    unfolding s' by (rule stable_store [OF assms(1)]) simp_all
qed

lemma stable_write_tracers:
  assumes "stable P" "P s" "write_tracers file_ids tracer_map s = Inr s'"
  shows "P s'"
proof -
  from assms(3) obtain s2 db rows where c: "connect s = Inr (s2, db)"
    and s': "s' = s2 \<lparr> cd_store := Some (db \<lparr> tracer_rows := rows \<rparr>) \<rparr>"
    by (auto simp: write_tracers_def elim!: then_resE)
  have "P s2" using stable_connect [OF assms(1,2) c] .
  moreover have "cd_store s2 = Some db" using connect_Inr [OF c] by simp
  ultimately show ?thesis
    unfolding s' by (rule stable_store [OF assms(1)]) simp_all
qed

lemma stable_update_write_rows:
  assumes "stable P" "P s"
    "update_write_rows file_ids context_ids arc_list line_dict tracer_map s = Inr s'"
  shows "P s'"
proof -
  from assms(3) obtain s1 s2 where
    a: "(if arc_list \<noteq> [] then write_arcs file_ids context_ids arc_list s else Inr s) = Inr s1"
    and l: "(if line_dict \<noteq> [] then write_lines file_ids context_ids line_dict s1 else Inr s1) = Inr s2"
    and t: "write_tracers file_ids tracer_map s2 = Inr s'"
    unfolding update_write_rows_def by (elim then_resE) blast
  have p1: "P s1" using a assms(2) stable_write_arcs [OF assms(1,2)] by (auto split: if_splits)
  have p2: "P s2" using l p1 stable_write_lines [OF assms(1) p1] by (auto split: if_splits)
  show ?thesis using stable_write_tracers [OF assms(1) p2 t] .
qed

lemma stable_update_write:
  assumes "stable P" "P s"
    "update_write aliases_map s files_values contexts arc_list line_dict tracers = Inr s'"
  shows "P s'"
proof -
  from assms(3) obtain s1 db tracer_map where c: "connect s = Inr (s1, db)"
    and w: "update_write_rows (file_ids_of (insert_files_contexts files_values contexts db))
              (context_ids_of (insert_files_contexts files_values contexts db)) arc_list
              (merged_lines aliases_map (insert_files_contexts files_values contexts db) line_dict)
              tracer_map
              (s1 \<lparr> cd_store := Some (insert_files_contexts files_values contexts db) \<rparr>) = Inr s'"
    unfolding update_write_def Let_def by (auto elim!: then_resE)
  have p1: "P s1" using stable_connect [OF assms(1,2) c] .
  have st: "cd_store s1 = Some db" using connect_Inr [OF c] by simp
  have "P (s1 \<lparr> cd_store := Some (insert_files_contexts files_values contexts db) \<rparr>)"
    by (rule stable_store [OF assms(1) p1 st]) (simp_all add: insert_files_contexts_def)
  then show ?thesis using stable_update_write_rows [OF assms(1) _ w] by simp
qed

lemma stable_reset: "stable P \<Longrightarrow> P s \<Longrightarrow> P (reset s)"
  using mstep_reset stableD by blast

lemma stable_erase: "stable P \<Longrightarrow> P s \<Longrightarrow> P (erase s)"
  using mstep_erase stableD by blast

lemma stable_update:
  assumes "stable P" "P s" "update aliases_map s other_data = Inr (s', o')"
  shows "P s'"
proof -
  from assms(3) obtain odb s1 where
    w: "update_write aliases_map (start_using s)
                    (other_files_values aliases_map odb) (other_contexts odb)
                    (other_arcs aliases_map odb) (other_lines aliases_map odb)
                    (other_tracers aliases_map odb) = Inr s1"
    and r: "read (reset s1) = Inr s'"
    unfolding update_def by (auto split: if_splits elim!: then_resE)
  have "P s1" using stable_update_write [OF assms(1) stable_start_using [OF assms(1,2)] w] .
  then show ?thesis using stable_read [OF assms(1) stable_reset [OF assms(1)] r] by simp
qed

lemma stable_set_context: "stable P \<Longrightarrow> P s \<Longrightarrow> P (set_context s context)"
  unfolding set_context_def by (erule stable_fields) simp_all

lemma stable_dumps:
  assumes "stable P" "P s" "dumps s = Inr (s', r)"
  shows "P s'"
  using assms(3) stable_connect [OF assms(1,2)] by (auto simp: dumps_def then_res_Inr)

lemma stable_call_api:
  assumes "stable P" "P s" "\<not> is_loads c" "call_api re_search c s = Inr s'"
  shows "P s'"
  using assms(4,3,2)
  by (cases c)
    (auto elim!: then_resE
      intro: stable_set_context [OF assms(1)] stable_add_lines [OF assms(1)]
        stable_add_arcs [OF assms(1)] stable_add_file_tracers [OF assms(1)]
        stable_touch_file [OF assms(1)] stable_update [OF assms(1)] stable_erase [OF assms(1)]
        stable_read [OF assms(1)] stable_measured_contexts [OF assms(1)]
        stable_file_tracer [OF assms(1)] stable_set_query_context [OF assms(1)]
        stable_set_query_contexts [OF assms(1)] stable_lines [OF assms(1)]
        stable_arcs [OF assms(1)] stable_contexts_by_lineno [OF assms(1)]
        stable_dumps [OF assms(1)])

lemma stable_rejected:
  assumes "stable P" "P s" "rejected c e s = Some s'"
  shows "P s'"
  using assms(3,2) stable_start_using [OF assms(1,2)]
  by (cases c) (auto split: if_splits)

lemma run_Cons_Inr:
  assumes "run re_search s (c # calls) = Inr s'"
  obtains s1 where "run re_search s1 calls = Inr s'"
    and "call_api re_search c s = Inr s1 \<or>
         (\<exists>e. call_api re_search c s = Inl e \<and> rejected c e s = Some s1)"
  using assms by (auto split: sum.splits option.splits)

lemma stable_run:
  assumes "stable P" "P s" "without_loads calls" "run re_search s calls = Inr s'"
  shows "P s'"
  using assms(2,3,4)
proof (induction calls arbitrary: s)
  case Nil
  then show ?case by simp
next
  case (Cons c calls)
  from Cons.prems(2) have nl: "\<not> is_loads c" and wl: "without_loads calls"
    by (simp_all add: without_loads_def)
  from Cons.prems(3) obtain s1 where r: "run re_search s1 calls = Inr s'"
    and c: "call_api re_search c s = Inr s1 \<or>
         (\<exists>e. call_api re_search c s = Inl e \<and> rejected c e s = Some s1)"
    by (rule run_Cons_Inr)
  have "P s1"
    using c stable_call_api [OF assms(1) Cons.prems(1) nl] stable_rejected [OF assms(1) Cons.prems(1)]
    by blast
  then show ?case using wl r by (rule Cons.IH)
qed

lemma stable_add_lines_tail:
  assumes "stable P" "P s1"
    "(if line_data = [] then Inr s1
       else then_res (connect s1) (\<lambda>(s2, _).
         then_res (set_context_id s2) (\<lambda>(s3, current_context_id).
           fold_res (add_lines_item current_context_id) line_data s3))) = Inr s'"
  shows "P s'"
proof (cases "line_data = []")
  case True
  with assms show ?thesis by simp
next
  case False
  with assms(3) obtain s2 d2 s3 cid where c2: "connect s1 = Inr (s2, d2)"
    and sc: "set_context_id s2 = Inr (s3, cid)"
    and fr: "fold_res (add_lines_item cid) line_data s3 = Inr s'"
    by (auto elim!: then_resE)
  have p3: "P s3"
    using stable_set_context_id [OF assms(1) stable_connect [OF assms(1,2) c2] sc] .
  show ?thesis
    by (rule fold_res_inv [where P = P, OF fr p3]) (rule stable_add_lines_item [OF assms(1)])
qed

lemma stable_add_arcs_tail:
  assumes "stable P" "P s1"
    "(if arc_data = [] then Inr s1
       else then_res (connect s1) (\<lambda>(s2, _).
         then_res (set_context_id s2) (\<lambda>(s3, current_context_id).
           fold_res (add_arcs_item current_context_id) arc_data s3))) = Inr s'"
  shows "P s'"
proof (cases "arc_data = []")
  case True
  with assms show ?thesis by simp
next
  case False
  with assms(3) obtain s2 d2 s3 cid where c2: "connect s1 = Inr (s2, d2)"
    and sc: "set_context_id s2 = Inr (s3, cid)"
    and fr: "fold_res (add_arcs_item cid) arc_data s3 = Inr s'"
    by (auto elim!: then_resE)
  have p3: "P s3"
    using stable_set_context_id [OF assms(1) stable_connect [OF assms(1,2) c2] sc] .
  show ?thesis
    by (rule fold_res_inv [where P = P, OF fr p3]) (rule stable_add_arcs_item [OF assms(1)])
qed

lemma mode_ok_locked:
  "mode_ok s \<Longrightarrow> cd_has_arcs s = a \<Longrightarrow> cd_has_lines s = (\<not> a) \<Longrightarrow> locked a s"
  by (cases a) (auto simp: mode_ok_def locked_def)

lemma add_lines_locks:
  assumes "mode_ok s" "add_lines s line_data = Inr s'"
  shows "locked False s'"
proof -
  from assms(2) obtain s1 where ch: "choose_lines_or_arcs (start_using s) True False = Inr s1"
    and rest: "(if line_data = [] then Inr s1
       else then_res (connect s1) (\<lambda>(s2, _).
         then_res (set_context_id s2) (\<lambda>(s3, current_context_id).
           fold_res (add_lines_item current_context_id) line_data s3))) = Inr s'"
    unfolding add_lines_def by (rule then_resE)
  have "mode_ok s1"
    using stable_choose [OF stable_mode_ok stable_start_using [OF stable_mode_ok assms(1)] ch] .
  then have "locked False s1" using choose_Inr [OF ch] by (auto intro: mode_ok_locked)
  then show ?thesis using stable_add_lines_tail [OF stable_locked _ rest] by simp
qed

lemma add_arcs_locks:
  assumes "mode_ok s" "add_arcs s arc_data = Inr s'"
  shows "locked True s'"
proof -
  from assms(2) obtain s1 where ch: "choose_lines_or_arcs (start_using s) False True = Inr s1"
    and rest: "(if arc_data = [] then Inr s1
       else then_res (connect s1) (\<lambda>(s2, _).
         then_res (set_context_id s2) (\<lambda>(s3, current_context_id).
           fold_res (add_arcs_item current_context_id) arc_data s3))) = Inr s'"
    unfolding add_arcs_def by (rule then_resE)
  have "mode_ok s1"
    using stable_choose [OF stable_mode_ok stable_start_using [OF stable_mode_ok assms(1)] ch] .
  then have "locked True s1" using choose_Inr [OF ch] by (auto intro: mode_ok_locked)
  then show ?thesis using stable_add_arcs_tail [OF stable_locked _ rest] by simp
qed

lemma start_using_flags [simp]:
  "cd_has_lines (start_using s) = cd_has_lines s" "cd_has_arcs (start_using s) = cd_has_arcs s"
  by (simp_all add: start_using_def erase_def reset_def Let_def)

lemma locked_add_arcs_fails:
  "locked False s \<Longrightarrow>
   add_arcs s arc_data = Inl (CoverageException ''Can't add arcs to existing line data'')"
  by (simp add: add_arcs_def choose_lines_or_arcs_def locked_def)

lemma locked_add_lines_fails:
  "locked True s \<Longrightarrow>
   add_lines s line_data = Inl (CoverageException ''Can't add lines to existing arc data'')"
  by (simp add: add_lines_def choose_lines_or_arcs_def locked_def)

lemma mode_ok_init: "mode_ok (init no_disk data_file)"
  by (simp add: mode_ok_def init_def)


lemmas model_defs =
  then_res_def init_def reset_def erase_def start_using_def connect_def create_db_def
  open_db_def read_db_def new_database_def SCHEMA_VERSION_def bool_of_text_def read_def
  file_id_def file_id_add_def context_id_def set_context_def set_context_id_def
  choose_lines_or_arcs_def add_lines_def add_lines_item_def add_arcs_def add_arcs_item_def
  replace_line_bits_def ignore_arc_def new_rowid_def insert_or_ignore_def insert_or_replace_def
  file_tracer_def add_file_tracers_def add_file_tracers_item_def touch_file_def
  set_query_context_def set_query_contexts_def regexp_def regexp_operator_def
  in_query_contexts_def arcs_def lines_def has_arcs_def contexts_by_lineno_def
  measured_contexts_def nums_to_numbits_def byte_of_nums_def Let_def
  dumps_def loads_def without_loads_def

section \<open>The mode lock\<close>

text \<open>
  \<^verbatim>\<open>_read_db\<close> leaves the flags as they are when the meta table has no
  \<^verbatim>\<open>has_arcs\<close> row, and sets them from the last such row otherwise; so the flags and
  the database agree after \<^verbatim>\<open>loads\<close> too, whatever database it has loaded.
\<close>

lemma read_db_flags:
  assumes "read_db s = Inr s'"
  shows "\<exists>db. cd_store s = Some db \<and> cd_store s' = Some db \<and>
           ((mode_rows db = [] \<and> cd_has_arcs s' = cd_has_arcs s \<and> cd_has_lines s' = cd_has_lines s) \<or>
            (\<exists>b. mode_rows db \<noteq> [] \<and> last (mode_rows db) = mode_text b \<and>
                  cd_has_arcs s' = b \<and> cd_has_lines s' = (\<not> b)))"
proof -
  from assms obtain db where db: "cd_store s = Some db"
    by (auto simp: read_db_def split: option.splits)
  from assms db obtain s2 where
    s2: "fold_res (\<lambda>row s1. then_res (bool_of_text row)
           (\<lambda>b. Inr (s1 \<lparr> cd_has_arcs := b, cd_has_lines := \<not> b \<rparr>))) (mode_rows db) s = Inr s2"
    and s': "s' = s2 \<lparr> cd_file_map := fold (\<lambda>(file_id, path) m. m(path \<mapsto> file_id)) (file_rows db) (cd_file_map s2) \<rparr>"
    by (auto simp: read_db_def then_res_Inr fold_file_map mode_rows_def split: list.splits if_splits)
  from fold_res_flags [OF s2] show ?thesis
    using db s' by (auto simp: bool_of_text_mode)
qed

lemma mode_ok_loads:
  assumes "mode_ok s" "loads s data = Inr s'"
  shows "mode_ok s'"
proof -
  from assms(2) obtain db s1 where
    r: "read_db (s \<lparr> cd_store := Some db, cd_dbs := True \<rparr>) = Inr s1"
    and s': "s' = s1 \<lparr> cd_have_used := True \<rparr>"
    by (auto simp: loads_def then_res_Inr split: serial.splits if_splits)
  from read_db_flags [OF r] have st: "cd_store s1 = Some db"
    and fl: "(mode_rows db = [] \<and> cd_has_arcs s1 = cd_has_arcs s \<and> cd_has_lines s1 = cd_has_lines s) \<or>
            (\<exists>b. mode_rows db \<noteq> [] \<and> last (mode_rows db) = mode_text b \<and>
                  cd_has_arcs s1 = b \<and> cd_has_lines s1 = (\<not> b))"
    by auto
  from fl show ?thesis
  proof
    assume "mode_rows db = [] \<and> cd_has_arcs s1 = cd_has_arcs s \<and> cd_has_lines s1 = cd_has_lines s"
    with assms(1) st show ?thesis
      unfolding s' by (auto simp: mode_ok_def locked_def store_rows_def)
  next
    assume "\<exists>b. mode_rows db \<noteq> [] \<and> last (mode_rows db) = mode_text b \<and>
                  cd_has_arcs s1 = b \<and> cd_has_lines s1 = (\<not> b)"
    then obtain b where "last (mode_rows db) = mode_text b" "cd_has_arcs s1 = b"
      "cd_has_lines s1 = (\<not> b)" by blast
    with st have "locked b s'"
      unfolding s' by (simp add: locked_def store_rows_def)
    then show ?thesis by (cases b) (auto simp: mode_ok_def)
  qed
qed

lemma mode_ok_run:
  assumes "mode_ok s" "run re_search s calls = Inr s'"
  shows "mode_ok s'"
  using assms
proof (induction calls arbitrary: s)
  case Nil
  then show ?case by simp
next
  case (Cons c calls)
  from Cons.prems(2) obtain s1 where r: "run re_search s1 calls = Inr s'"
    and c: "call_api re_search c s = Inr s1 \<or>
         (\<exists>e. call_api re_search c s = Inl e \<and> rejected c e s = Some s1)"
    by (rule run_Cons_Inr)
  have "mode_ok s1"
  proof (cases "is_loads c")
    case False
    with c stable_call_api [OF stable_mode_ok Cons.prems(1) False]
      stable_rejected [OF stable_mode_ok Cons.prems(1)]
    show ?thesis by blast
  next
    case True
    then obtain data where l: "c = Loads data" by (cases c) simp_all
    from c show ?thesis
      unfolding l using mode_ok_loads [OF Cons.prems(1)] Cons.prems(1)
      by (auto split: if_splits)
  qed
  then show ?case using r by (rule Cons.IH)
qed

text \<open>
  Claim C2, as the code has it. On an object created by the constructor and used through
  any calls of the API, after a successful \<^verbatim>\<open>add_lines\<close> every \<^verbatim>\<open>add_arcs\<close> that
  is called before any \<^verbatim>\<open>loads\<close> raises the exception with the message
  \<^verbatim>\<open>Can't add arcs to existing line data\<close>, whatever other calls were made in
  between, rejected ones included; and after a successful \<^verbatim>\<open>add_arcs\<close> every
  \<^verbatim>\<open>add_lines\<close> that is called before any \<^verbatim>\<open>loads\<close> raises
  \<^verbatim>\<open>Can't add lines to existing arc data\<close>. The exception class of
  \<^verbatim>\<open>sqldata.py\<close> is \<^verbatim>\<open>CoverageException\<close>.
\<close>

theorem mode_lock:
  assumes "run re_search (init no_disk data_file) calls0 = Inr s0"
  shows "(add_lines s0 line_data = Inr s1 \<longrightarrow> without_loads calls \<longrightarrow>
            run re_search s1 calls = Inr s2 \<longrightarrow>
            add_arcs s2 arc_data = Inl (CoverageException ''Can't add arcs to existing line data''))
       \<and> (add_arcs s0 arc_data' = Inr s1' \<longrightarrow> without_loads calls' \<longrightarrow>
            run re_search s1' calls' = Inr s2' \<longrightarrow>
            add_lines s2' line_data' = Inl (CoverageException ''Can't add lines to existing arc data''))"
proof -
  have ok: "mode_ok s0"
    by (rule mode_ok_run [OF mode_ok_init assms])
  have "add_arcs s2 arc_data = Inl (CoverageException ''Can't add arcs to existing line data'')"
    if a: "add_lines s0 line_data = Inr s1" and w: "without_loads calls"
      and r: "run re_search s1 calls = Inr s2"
  proof -
    have "locked False s1" by (rule add_lines_locks [OF ok a])
    then have "locked False s2" using w r by (rule stable_run [OF stable_locked])
    then show ?thesis by (rule locked_add_arcs_fails)
  qed
  moreover
  have "add_lines s2' line_data' = Inl (CoverageException ''Can't add lines to existing arc data'')"
    if a: "add_arcs s0 arc_data' = Inr s1'" and w: "without_loads calls'"
      and r: "run re_search s1' calls' = Inr s2'"
  proof -
    have "locked True s1'" by (rule add_arcs_locks [OF ok a])
    then have "locked True s2'" using w r by (rule stable_run [OF stable_locked])
    then show ?thesis by (rule locked_add_lines_fails)
  qed
  ultimately show ?thesis by blast
qed

theorem mode_lock_witness:
  "(\<exists>s0 s1 s2.
      run literal_search (init False None) [Set_context ''t''] = Inr s0 \<and>
      add_lines s0 [(''a.py'', [1, 2])] = Inr s1 \<and>
      without_loads [Lines ''a.py'', Add_arcs [(''a.py'', [(1, 2)])], Set_query_context ''t'',
                     Add_arcs []] \<and>
      run literal_search s1 [Lines ''a.py'', Add_arcs [(''a.py'', [(1, 2)])], Set_query_context ''t'',
                             Add_arcs []] = Inr s2 \<and>
      add_arcs s2 [(''a.py'', [(1, 2)])] =
        Inl (CoverageException ''Can't add arcs to existing line data''))
   \<and> (\<exists>s0 s1 s2.
      run literal_search (init False None) [Set_context ''t''] = Inr s0 \<and>
      add_arcs s0 [(''a.py'', [(1, 2)])] = Inr s1 \<and>
      without_loads [Arcs ''a.py'', Add_lines [(''a.py'', [1, 2])], Erase] \<and>
      run literal_search s1 [Arcs ''a.py'', Add_lines [(''a.py'', [1, 2])], Erase] = Inr s2 \<and>
      add_lines s2 [(''a.py'', [1, 2])] =
        Inl (CoverageException ''Can't add lines to existing arc data''))"
proof -
  let ?s0 = "set_context (init False None) ''t''"
  let ?cl = "[Lines ''a.py'', Add_arcs [(''a.py'', [(1, 2)])], Set_query_context ''t'', Add_arcs []]"
  let ?ca = "[Arcs ''a.py'', Add_lines [(''a.py'', [1, 2])], Erase]"
  have r0: "run literal_search (init False None) [Set_context ''t''] = Inr ?s0"
    by simp
  have w: "without_loads ?cl" "without_loads ?ca"
    by (simp_all add: without_loads_def)
  have l: "\<exists>s1 s2. add_lines ?s0 [(''a.py'', [1, 2])] = Inr s1 \<and> run literal_search s1 ?cl = Inr s2"
    by (simp add: model_defs)
  have a: "\<exists>s1 s2. add_arcs ?s0 [(''a.py'', [(1, 2)])] = Inr s1 \<and> run literal_search s1 ?ca = Inr s2"
    by (simp add: model_defs)
  from l obtain s1 s2 where l1: "add_lines ?s0 [(''a.py'', [1, 2])] = Inr s1"
    and l2: "run literal_search s1 ?cl = Inr s2" by blast
  from a obtain t1 t2 where a1: "add_arcs ?s0 [(''a.py'', [(1, 2)])] = Inr t1"
    and a2: "run literal_search t1 ?ca = Inr t2" by blast
  from mode_lock [OF r0, of "[(''a.py'', [1, 2])]" s1 ?cl s2
      "[(''a.py'', [(1, 2)])]" "[(''a.py'', [(1, 2)])]" t1 ?ca t2
      "[(''a.py'', [1, 2])]"]
    l1 l2 a1 a2 r0 w
  show ?thesis by blast
qed

text \<open>
  The claim as stated fails when \<^verbatim>\<open>loads\<close> is called: it replaces the database and
  \<^verbatim>\<open>_read_db\<close> sets the flags from the \<^verbatim>\<open>has_arcs\<close> row of the loaded data. On an
  object with \<^verbatim>\<open>no_disk\<close>, after \<^verbatim>\<open>add_lines({"a.py": {1, 2}})\<close> has returned,
  \<^verbatim>\<open>loads\<close> of the bytes that \<^verbatim>\<open>dumps\<close> returns on an object with arcs returns, and
  \<^verbatim>\<open>add_arcs\<close> returns after it.
\<close>

theorem mode_lock_counterexample:
  "\<exists>t d s1 s2 s3.
     run literal_search (init True None) [Add_arcs [(''a.py'', [(1, 2)])]] = Inr t \<and>
     dumps t = Inr (t, d) \<and>
     add_lines (init True None) [(''a.py'', [1, 2])] = Inr s1 \<and>
     run literal_search s1 [Loads d] = Inr s2 \<and>
     add_arcs s2 [(''a.py'', [(1, 2)])] = Inr s3"
  by (simp add: model_defs)

text \<open>
  Claim C9. \<^verbatim>\<open>add_lines\<close> with an empty mapping on a new object returns, and it has
  chosen the mode: \<^verbatim>\<open>_has_lines\<close> is set and the meta table holds the row
  \<^verbatim>\<open>('has_arcs', '0')\<close>, while no file and no line is recorded; after any further
  calls other than \<^verbatim>\<open>loads\<close>, \<^verbatim>\<open>add_arcs\<close> raises. The same holds for
  \<^verbatim>\<open>add_arcs\<close> with an empty mapping, which writes \<^verbatim>\<open>('has_arcs', '1')\<close> and
  makes every later \<^verbatim>\<open>add_lines\<close> raise.
\<close>

theorem empty_add_chooses_mode:
  "(\<exists>s1 db. add_lines (init no_disk data_file) [] = Inr s1 \<and> cd_store s1 = Some db \<and>
       (''has_arcs'', ''0'') \<in> set (meta_rows db) \<and> file_rows db = [] \<and> line_bits_rows db = [] \<and>
       cd_has_lines s1 \<and> \<not> has_arcs s1 \<and>
       (\<forall>calls s2 arc_data. without_loads calls \<longrightarrow> run re_search s1 calls = Inr s2 \<longrightarrow>
          add_arcs s2 arc_data = Inl (CoverageException ''Can't add arcs to existing line data'')))
   \<and> (\<exists>s1 db. add_arcs (init no_disk data_file) [] = Inr s1 \<and> cd_store s1 = Some db \<and>
       (''has_arcs'', ''1'') \<in> set (meta_rows db) \<and> file_rows db = [] \<and> arc_rows db = [] \<and>
       \<not> cd_has_lines s1 \<and> has_arcs s1 \<and>
       (\<forall>calls s2 line_data. without_loads calls \<longrightarrow> run re_search s1 calls = Inr s2 \<longrightarrow>
          add_lines s2 line_data = Inl (CoverageException ''Can't add lines to existing arc data'')))"
proof (intro conjI)
  have "\<exists>s1. add_lines (init no_disk data_file) [] = Inr s1 \<and>
          (\<exists>db. cd_store s1 = Some db \<and> (''has_arcs'', ''0'') \<in> set (meta_rows db) \<and>
                  file_rows db = [] \<and> line_bits_rows db = []) \<and> cd_has_lines s1 \<and> \<not> has_arcs s1"
    by (cases no_disk) (simp_all add: model_defs)
  then obtain s1 where s1: "add_lines (init no_disk data_file) [] = Inr s1"
    and facts: "\<exists>db. cd_store s1 = Some db \<and> (''has_arcs'', ''0'') \<in> set (meta_rows db) \<and>
                  file_rows db = [] \<and> line_bits_rows db = []" "cd_has_lines s1" "\<not> has_arcs s1"
    by blast
  have lk: "locked False s1" by (rule add_lines_locks [OF mode_ok_init s1])
  have "add_arcs s2 arc_data = Inl (CoverageException ''Can't add arcs to existing line data'')"
    if "without_loads calls" "run re_search s1 calls = Inr s2" for calls s2 arc_data
    by (rule locked_add_arcs_fails [OF stable_run [OF stable_locked lk that]])
  with s1 facts show "\<exists>s1 db. add_lines (init no_disk data_file) [] = Inr s1 \<and> cd_store s1 = Some db \<and>
       (''has_arcs'', ''0'') \<in> set (meta_rows db) \<and> file_rows db = [] \<and> line_bits_rows db = [] \<and>
       cd_has_lines s1 \<and> \<not> has_arcs s1 \<and>
       (\<forall>calls s2 arc_data. without_loads calls \<longrightarrow> run re_search s1 calls = Inr s2 \<longrightarrow>
          add_arcs s2 arc_data = Inl (CoverageException ''Can't add arcs to existing line data''))"
    by blast
next
  have "\<exists>s1. add_arcs (init no_disk data_file) [] = Inr s1 \<and>
          (\<exists>db. cd_store s1 = Some db \<and> (''has_arcs'', ''1'') \<in> set (meta_rows db) \<and>
                  file_rows db = [] \<and> arc_rows db = []) \<and> \<not> cd_has_lines s1 \<and> has_arcs s1"
    by (cases no_disk) (simp_all add: model_defs)
  then obtain s1 where s1: "add_arcs (init no_disk data_file) [] = Inr s1"
    and facts: "\<exists>db. cd_store s1 = Some db \<and> (''has_arcs'', ''1'') \<in> set (meta_rows db) \<and>
                  file_rows db = [] \<and> arc_rows db = []" "\<not> cd_has_lines s1" "has_arcs s1"
    by blast
  have lk: "locked True s1" by (rule add_arcs_locks [OF mode_ok_init s1])
  have "add_lines s2 line_data = Inl (CoverageException ''Can't add lines to existing arc data'')"
    if "without_loads calls" "run re_search s1 calls = Inr s2" for calls s2 line_data
    by (rule locked_add_lines_fails [OF stable_run [OF stable_locked lk that]])
  with s1 facts show "\<exists>s1 db. add_arcs (init no_disk data_file) [] = Inr s1 \<and> cd_store s1 = Some db \<and>
       (''has_arcs'', ''1'') \<in> set (meta_rows db) \<and> file_rows db = [] \<and> arc_rows db = [] \<and>
       \<not> cd_has_lines s1 \<and> has_arcs s1 \<and>
       (\<forall>calls s2 line_data. without_loads calls \<longrightarrow> run re_search s1 calls = Inr s2 \<longrightarrow>
          add_lines s2 line_data = Inl (CoverageException ''Can't add lines to existing arc data''))"
    by blast
qed

theorem empty_add_chooses_mode_witness:
  "(\<exists>s1 s2. add_lines (init False None) [] = Inr s1 \<and>
      without_loads [Set_context ''t'', Lines ''a.py''] \<and>
      run literal_search s1 [Set_context ''t'', Lines ''a.py''] = Inr s2 \<and>
      add_arcs s2 [(''a.py'', [(1, 2)])] =
        Inl (CoverageException ''Can't add arcs to existing line data''))
   \<and> (\<exists>s1 s2. add_arcs (init False None) [] = Inr s1 \<and>
      without_loads [Set_context ''t'', Arcs ''a.py''] \<and>
      run literal_search s1 [Set_context ''t'', Arcs ''a.py''] = Inr s2 \<and>
      add_lines s2 [(''a.py'', [1, 2])] =
        Inl (CoverageException ''Can't add lines to existing arc data''))"
proof -
  have w: "without_loads [Set_context ''t'', Lines ''a.py'']"
    "without_loads [Set_context ''t'', Arcs ''a.py'']"
    by (simp_all add: without_loads_def)
  have l: "\<exists>s1 s2. add_lines (init False None) [] = Inr s1 \<and>
             run literal_search s1 [Set_context ''t'', Lines ''a.py''] = Inr s2"
    by (simp add: model_defs)
  have a: "\<exists>s1 s2. add_arcs (init False None) [] = Inr s1 \<and>
             run literal_search s1 [Set_context ''t'', Arcs ''a.py''] = Inr s2"
    by (simp add: model_defs)
  from l obtain s1 s2 where l1: "add_lines (init False None) [] = Inr s1"
    and l2: "run literal_search s1 [Set_context ''t'', Lines ''a.py''] = Inr s2" by blast
  from a obtain t1 t2 where a1: "add_arcs (init False None) [] = Inr t1"
    and a2: "run literal_search t1 [Set_context ''t'', Arcs ''a.py''] = Inr t2" by blast
  note main = empty_add_chooses_mode [of False None literal_search]
  from main obtain u1 where u1: "add_lines (init False None) [] = Inr u1"
    and u2: "\<forall>calls s2 arc_data. without_loads calls \<longrightarrow> run literal_search u1 calls = Inr s2 \<longrightarrow>
          add_arcs s2 arc_data = Inl (CoverageException ''Can't add arcs to existing line data'')"
    by blast
  from main obtain v1 where v1: "add_arcs (init False None) [] = Inr v1"
    and v2: "\<forall>calls s2 line_data. without_loads calls \<longrightarrow> run literal_search v1 calls = Inr s2 \<longrightarrow>
          add_lines s2 line_data = Inl (CoverageException ''Can't add lines to existing arc data'')"
    by blast
  from l1 u1 have su: "u1 = s1" by simp
  from a1 v1 have tv: "v1 = t1" by simp
  from u2 l2 su w have c1: "add_arcs s2 [(''a.py'', [(1, 2)])] =
        Inl (CoverageException ''Can't add arcs to existing line data'')" by blast
  from v2 a2 tv w have c2: "add_lines t2 [(''a.py'', [1, 2])] =
        Inl (CoverageException ''Can't add lines to existing arc data'')" by blast
  from l1 l2 c1 a1 a2 c2 w show ?thesis by blast
qed

section \<open>Objects in use\<close>

text \<open>
  An object is in use on the database \<open>db\<close> when it has been used
  (\<^verbatim>\<open>_have_used\<close>), holds its \<^verbatim>\<open>SqliteDb\<close> and the database is \<open>db\<close>: then
  \<^verbatim>\<open>_start_using\<close> changes nothing and \<^verbatim>\<open>_connect\<close> returns the connection at once.
\<close>

definition in_use :: "CoverageData \<Rightarrow> database \<Rightarrow> bool" where
  "in_use s db \<longleftrightarrow> cd_dbs s \<and> cd_have_used s \<and> cd_store s = Some db"

text \<open>
  A concrete object: the one \<^verbatim>\<open>add_lines({"a.py": {1, 2, 5}})\<close> leaves when called on
  a new object, with the rows \<open>tr\<close> in its tracer table.
\<close>

definition example_db :: "(nat \<times> string) list \<Rightarrow> database" where
  "example_db tr =
     \<lparr> coverage_schema = [7],
       meta_rows = [(''sys_argv'', []), (''version'', []), (''when'', []), (''has_arcs'', ''0'')],
       file_rows = [(1, ''a.py'')],
       context_rows = [(1, [])],
       line_bits_rows = [(1, 1, [38])],
       arc_rows = [],
       tracer_rows = tr \<rparr>"

definition example_store :: "(nat \<times> string) list \<Rightarrow> CoverageData" where
  "example_store tr =
     \<lparr> cd_no_disk = False,
       cd_store = Some (example_db tr),
       cd_dbs = True,
       cd_file_map = [''a.py'' \<mapsto> 1],
       cd_have_used = True,
       cd_has_lines = True,
       cd_has_arcs = False,
       cd_current_context = None,
       cd_current_context_id = Some 1,
       cd_query_context_ids = None \<rparr>"

lemma in_use_start_using [simp]: "in_use s db \<Longrightarrow> start_using s = s"
  by (simp add: in_use_def start_using_def)

lemma in_use_connect [simp]: "in_use s db \<Longrightarrow> connect s = Inr (s, db)"
  by (simp add: in_use_def connect_def)

lemma in_use_example [simp]: "in_use (example_store tr) (example_db tr)"
  by (simp add: in_use_def example_store_def)

lemma example_store_reached:
  "add_lines (init False None) [(''a.py'', [1, 2, 5])] = Inr (example_store [])"
  by (simp add: model_defs example_store_def example_db_def)

lemma example_store_traced:
  "add_file_tracers (example_store []) [(''a.py'', ''plugin'')] = Inr (example_store [(1, ''plugin'')])"
  by (simp add: model_defs example_store_def example_db_def)

lemma in_use_file_tracer:
  "in_use s db \<Longrightarrow> file_tracer s filename =
     Inr (s, case file_id s filename of
               None \<Rightarrow> None
             | Some fid \<Rightarrow> (case find (\<lambda>(f, t). f = fid) (tracer_rows db) of
                             Some (_, t) \<Rightarrow> Some t | None \<Rightarrow> Some []))"
  by (simp add: file_tracer_def split: option.splits)

section \<open>Adding file tracers\<close>

text \<open>
  Claim C7, as the code has it. For a file that the object knows, \<^verbatim>\<open>add_file_tracers\<close>
  with the empty string as the tracer name changes nothing and raises nothing when the
  file has no tracer (no tracer row, or a row with the empty name); when the file already
  has a tracer with a name, it raises the exception
  \<^verbatim>\<open>Conflicting file tracer name\<close>, because the name to add differs from the one
  recorded.
\<close>

theorem add_file_tracers_empty_name:
  assumes "in_use s db" and "cd_file_map s filename = Some fid"
  shows "add_file_tracers s [(filename, [])] =
     (case find (\<lambda>(f, t). f = fid) (tracer_rows db) of
        None \<Rightarrow> Inr s
      | Some (_, t) \<Rightarrow>
          if t = [] then Inr s else Inl (CoverageException (conflicting_tracer_msg filename)))"
proof -
  have ft: "file_tracer s filename =
      Inr (s, case find (\<lambda>(f, t). f = fid) (tracer_rows db) of
                Some (_, t) \<Rightarrow> Some t | None \<Rightarrow> Some [])"
    using assms by (simp add: in_use_file_tracer file_id_def)
  show ?thesis
    using assms ft
    by (simp add: add_file_tracers_def add_file_tracers_item_def file_id_def
        split: option.splits)
qed

theorem add_file_tracers_empty_name_witness:
  "in_use (example_store []) (example_db []) \<and>
   cd_file_map (example_store []) ''a.py'' = Some 1 \<and>
   add_file_tracers (example_store []) [(''a.py'', [])] = Inr (example_store [])"
  using add_file_tracers_empty_name [of "example_store []" "example_db []" "''a.py''" 1]
  by (simp add: example_store_def example_db_def in_use_def)

text \<open>
  The claim as stated fails on a file with a tracer: on the object that
  \<^verbatim>\<open>add_lines({"a.py": {1, 2, 5}})\<close> and
  \<^verbatim>\<open>add_file_tracers({"a.py": "plugin"})\<close> leave, \<^verbatim>\<open>add_file_tracers({"a.py": ""})\<close>
  raises.
\<close>

theorem add_file_tracers_empty_name_counterexample:
  "run literal_search (init False None)
     [Add_lines [(''a.py'', [1, 2, 5])], Add_file_tracers [(''a.py'', ''plugin'')]] =
     Inr (example_store [(1, ''plugin'')]) \<and>
   add_file_tracers (example_store [(1, ''plugin'')]) [(''a.py'', [])] =
     Inl (CoverageException (conflicting_tracer_msg ''a.py''))"
proof
  show "run literal_search (init False None)
     [Add_lines [(''a.py'', [1, 2, 5])], Add_file_tracers [(''a.py'', ''plugin'')]] =
     Inr (example_store [(1, ''plugin'')])"
    by (simp only: run.simps call_api.simps example_store_reached
        example_store_traced sum.case)
  show "add_file_tracers (example_store [(1, ''plugin'')]) [(''a.py'', [])] =
     Inl (CoverageException (conflicting_tracer_msg ''a.py''))"
    by (simp add: model_defs example_store_def example_db_def)
qed

section \<open>Contexts by line number\<close>

definition dd_good :: "('k \<times> 'v list) list \<Rightarrow> bool" where
  "dd_good m \<longleftrightarrow> distinct (map fst m) \<and> [] \<notin> snd ` set m"

lemma dd_good_Nil [simp]: "dd_good []"
  by (simp add: dd_good_def)

lemma dd_append_keys: "fst ` set (dd_append k v m) = insert k (fst ` set m)"
  by (simp add: dd_append_def dom_update)

lemma set_update_subset: "set (AList.update k v al) \<subseteq> insert (k, v) (set al)"
  by (induction al) auto

lemma dd_append_good: "dd_good m \<Longrightarrow> dd_good (dd_append k v m)"
  unfolding dd_good_def dd_append_def
  using set_update_subset [of k "dd_get m k @ [v]" m]
  by (auto simp: distinct_update)

lemma dd_append_new_keys: "fst ` set (dd_append_new k v m) = insert k (fst ` set m)"
  by (auto simp: dd_append_new_def dd_touch_def dd_append_keys Let_def)

lemma dd_get_absent: "k \<notin> fst ` set m \<Longrightarrow> dd_get (m @ [(k, [])]) k = []"
  by (induction m) (auto simp: dd_get_def)

lemma dd_append_new_good:
  assumes "dd_good m"
  shows "dd_good (dd_append_new k v m)"
proof (cases "k \<in> fst ` set m")
  case True
  then have "dd_touch k m = m" by (simp add: dd_touch_def)
  then show ?thesis using assms dd_append_good [OF assms] by (simp add: dd_append_new_def)
next
  case False
  then have t: "dd_touch k m = m @ [(k, [])]" by (simp add: dd_touch_def)
  have g: "dd_get (m @ [(k, [])]) k = []" using False by (rule dd_get_absent)
  have "dd_append_new k v m = AList.update k [v] (m @ [(k, [])])"
    by (simp add: dd_append_new_def t g dd_append_def)
  also have "\<dots> = m @ [(k, [v])]"
    using False by (induction m) auto
  finally show ?thesis using assms False by (auto simp: dd_good_def)
qed

lemma fold_dd_append:
  "dd_good m \<Longrightarrow>
   dd_good (fold (\<lambda>lineno. dd_append (f lineno) context) nums m) \<and>
   fst ` set (fold (\<lambda>lineno. dd_append (f lineno) context) nums m) = fst ` set m \<union> f ` set nums"
  by (induction nums arbitrary: m) (auto simp: dd_append_good dd_append_keys)

lemma fold_lines_rows:
  "dd_good m \<Longrightarrow>
   dd_good (fold (\<lambda>(numbits, context) m.
                    fold (\<lambda>lineno. dd_append (int lineno) context) (numbits_to_nums numbits) m) rows m) \<and>
   fst ` set (fold (\<lambda>(numbits, context) m.
                    fold (\<lambda>lineno. dd_append (int lineno) context) (numbits_to_nums numbits) m) rows m) =
     fst ` set m \<union> {int n | n numbits context. (numbits, context) \<in> set rows \<and> n \<in> set (numbits_to_nums numbits)}"
proof (induction rows arbitrary: m)
  case Nil
  then show ?case by simp
next
  case (Cons r rows)
  obtain nb ctx where r: "r = (nb, ctx)" by (cases r)
  let ?m1 = "fold (\<lambda>lineno. dd_append (int lineno) ctx) (numbits_to_nums nb) m"
  from fold_dd_append [OF Cons.prems, of int ctx "numbits_to_nums nb"]
  have g1: "dd_good ?m1" and k1: "fst ` set ?m1 = fst ` set m \<union> int ` set (numbits_to_nums nb)"
    by auto
  from Cons.IH [OF g1] show ?case
    unfolding r by (auto simp: k1)
qed

lemma fold_arcs_rows:
  "dd_good m \<Longrightarrow>
   dd_good (fold (\<lambda>(fromno, tono, context) m.
                    dd_append_new tono context (dd_append_new fromno context m)) rows m) \<and>
   fst ` set (fold (\<lambda>(fromno, tono, context) m.
                    dd_append_new tono context (dd_append_new fromno context m)) rows m) =
     fst ` set m \<union> {l. \<exists>fromno tono context. (fromno, tono, context) \<in> set rows \<and> (l = fromno \<or> l = tono)}"
proof (induction rows arbitrary: m)
  case Nil
  then show ?case by simp
next
  case (Cons r rows)
  obtain a b ctx where r: "r = (a, b, ctx)" by (cases r)
  let ?m1 = "dd_append_new b ctx (dd_append_new a ctx m)"
  have g1: "dd_good ?m1" by (intro dd_append_new_good Cons.prems)
  have k1: "fst ` set ?m1 = insert b (insert a (fst ` set m))" by (simp add: dd_append_new_keys)
  from Cons.IH [OF g1] show ?case
    unfolding r by (auto simp: k1)
qed


lemma start_using_idem [simp]: "start_using (start_using s) = start_using s"
  by (simp add: start_using_def)

lemma connect_again: "connect s = Inr (s1, db) \<Longrightarrow> connect s1 = Inr (s1, db)"
  by (drule connect_Inr) (simp add: connect_def)

lemma set_join_context:
  "set (concat (map (\<lambda>(f, c, x). map (\<lambda>(i, context). g x context)
                                     (filter (\<lambda>(i, context). c = i) crows))
                     (filter P rows))) =
   {g x context | f c x context. (f, c, x) \<in> set rows \<and> P (f, c, x) \<and> (c, context) \<in> set crows}"
  by (auto simp: image_iff)

lemma unknown_file_queries:
  assumes "connect (start_using s) = Inr (s1, db)" and "cd_file_map s1 filename = None"
  shows "contexts_by_lineno s filename = Inr (s1, [])"
    and "lines s filename = Inr (s1, None)"
    and "arcs s filename = Inr (s1, None)"
proof -
  show c: "contexts_by_lineno s filename = Inr (s1, [])"
    using assms by (simp add: contexts_by_lineno_def file_id_def)
  show a: "arcs s filename = Inr (s1, None)"
    using assms by (simp add: arcs_def file_id_def)
  have a0: "arcs (start_using s) filename = Inr (s1, None)"
    using assms by (simp add: arcs_def file_id_def)
  show "lines s filename = Inr (s1, None)"
    using assms a0 connect_again [OF assms(1)]
    by (simp add: lines_def file_id_def Let_def)
qed


text \<open>
  Claim C10. When the file is not in the object's file map, \<^verbatim>\<open>contexts_by_lineno\<close>
  returns the empty mapping, where \<^verbatim>\<open>lines\<close> and \<^verbatim>\<open>arcs\<close> return \<^verbatim>\<open>None\<close>. For a
  file that is known, the keys of the mapping are exactly the line numbers of the
  \<^verbatim>\<open>line_bits\<close> rows of the file (with arcs, both ends of the arcs of the file) whose
  context passes the query contexts and has a row in the context table; no key is listed
  twice, and every key has at least one context.
\<close>

theorem contexts_by_lineno_keys:
  assumes "connect (start_using s) = Inr (s1, db)"
  shows "(cd_file_map s1 filename = None \<longrightarrow>
            contexts_by_lineno s filename = Inr (s1, []) \<and>
            lines s filename = Inr (s1, None) \<and> arcs s filename = Inr (s1, None))
       \<and> (\<forall>fid. cd_file_map s1 filename = Some fid \<longrightarrow>
            (\<exists>m. contexts_by_lineno s filename = Inr (s1, m) \<and>
                 distinct (map fst m) \<and> [] \<notin> snd ` set m \<and>
                 fst ` set m =
                   (if has_arcs s1
                    then {l. \<exists>c fromno tono. (fid, c, fromno, tono) \<in> set (arc_rows db) \<and>
                              in_query_contexts s1 c \<and> c \<in> fst ` set (context_rows db) \<and>
                              (l = fromno \<or> l = tono)}
                    else {int n | n c numbits. (fid, c, numbits) \<in> set (line_bits_rows db) \<and>
                              in_query_contexts s1 c \<and> c \<in> fst ` set (context_rows db) \<and>
                              n \<in> set (numbits_to_nums numbits)})))"
proof (intro conjI impI allI)
  assume "cd_file_map s1 filename = None"
  with assms show "contexts_by_lineno s filename = Inr (s1, [])"
    and "lines s filename = Inr (s1, None)" and "arcs s filename = Inr (s1, None)"
    by (rule unknown_file_queries)+
next
  fix fid
  assume fid: "cd_file_map s1 filename = Some fid"
  show "\<exists>m. contexts_by_lineno s filename = Inr (s1, m) \<and>
                 distinct (map fst m) \<and> [] \<notin> snd ` set m \<and>
                 fst ` set m =
                   (if has_arcs s1
                    then {l. \<exists>c fromno tono. (fid, c, fromno, tono) \<in> set (arc_rows db) \<and>
                              in_query_contexts s1 c \<and> c \<in> fst ` set (context_rows db) \<and>
                              (l = fromno \<or> l = tono)}
                    else {int n | n c numbits. (fid, c, numbits) \<in> set (line_bits_rows db) \<and>
                              in_query_contexts s1 c \<and> c \<in> fst ` set (context_rows db) \<and>
                              n \<in> set (numbits_to_nums numbits)})"
  proof (cases "has_arcs s1")
    case True
    let ?rows = "concat (map (\<lambda>(f, c, fromno, tono).
                                 map (\<lambda>(i, context). (fromno, tono, context))
                                     (filter (\<lambda>(i, context). c = i) (context_rows db)))
                              (filter (\<lambda>(f, c, fromno, tono). f = fid \<and> in_query_contexts s1 c)
                                      (arc_rows db)))"
    let ?m = "fold (\<lambda>(fromno, tono, context) m.
                 dd_append_new tono context (dd_append_new fromno context m)) ?rows []"
    have r: "contexts_by_lineno s filename = Inr (s1, ?m)"
      using assms fid True by (simp add: contexts_by_lineno_def file_id_def)
    have rows: "set ?rows = {(fromno, tono, context) | f c fromno tono context.
        (f, c, fromno, tono) \<in> set (arc_rows db) \<and> f = fid \<and> in_query_contexts s1 c \<and>
        (c, context) \<in> set (context_rows db)}"
      by (auto simp: image_iff)
    from fold_arcs_rows [OF dd_good_Nil, of ?rows]
    have g: "dd_good ?m" and k: "fst ` set ?m =
       {l. \<exists>fromno tono context. (fromno, tono, context) \<in> set ?rows \<and> (l = fromno \<or> l = tono)}"
      by auto
    have "fst ` set ?m = {l. \<exists>c fromno tono. (fid, c, fromno, tono) \<in> set (arc_rows db) \<and>
                              in_query_contexts s1 c \<and> c \<in> fst ` set (context_rows db) \<and>
                              (l = fromno \<or> l = tono)}"
      unfolding k rows by (auto simp: image_iff; force)
    with r g True show ?thesis by (auto simp: dd_good_def)
  next
    case False
    let ?rows = "concat (map (\<lambda>(f, c, numbits).
                                 map (\<lambda>(i, context). (numbits, context))
                                     (filter (\<lambda>(i, context). c = i) (context_rows db)))
                              (filter (\<lambda>(f, c, numbits). f = fid \<and> in_query_contexts s1 c)
                                      (line_bits_rows db)))"
    let ?m = "fold (\<lambda>(numbits, context) m.
                 fold (\<lambda>lineno. dd_append (int lineno) context) (numbits_to_nums numbits) m) ?rows []"
    have r: "contexts_by_lineno s filename = Inr (s1, ?m)"
      using assms fid False by (simp add: contexts_by_lineno_def file_id_def)
    have rows: "set ?rows = {(numbits, context) | f c numbits context.
        (f, c, numbits) \<in> set (line_bits_rows db) \<and> f = fid \<and> in_query_contexts s1 c \<and>
        (c, context) \<in> set (context_rows db)}"
      by (auto simp: image_iff)
    from fold_lines_rows [OF dd_good_Nil, of ?rows]
    have g: "dd_good ?m" and k: "fst ` set ?m =
       {int n | n numbits context. (numbits, context) \<in> set ?rows \<and> n \<in> set (numbits_to_nums numbits)}"
      by auto
    have "fst ` set ?m = {int n | n c numbits. (fid, c, numbits) \<in> set (line_bits_rows db) \<and>
                              in_query_contexts s1 c \<and> c \<in> fst ` set (context_rows db) \<and>
                              n \<in> set (numbits_to_nums numbits)}"
      unfolding k rows by (auto simp: image_iff; force)
    with r g False show ?thesis by (auto simp: dd_good_def)
  qed
qed

lemma numbits_38: "numbits_to_nums [38] = [1, 2, 5]"
  by code_simp

theorem contexts_by_lineno_keys_witness:
  "connect (start_using (example_store [])) = Inr (example_store [], example_db []) \<and>
   cd_file_map (example_store []) ''b.py'' = None \<and>
   contexts_by_lineno (example_store []) ''b.py'' = Inr (example_store [], []) \<and>
   lines (example_store []) ''b.py'' = Inr (example_store [], None) \<and>
   arcs (example_store []) ''b.py'' = Inr (example_store [], None) \<and>
   cd_file_map (example_store []) ''a.py'' = Some 1 \<and>
   (\<exists>m. contexts_by_lineno (example_store []) ''a.py'' = Inr (example_store [], m) \<and>
        fst ` set m = {1, 2, 5})"
proof -
  have c: "connect (start_using (example_store [])) = Inr (example_store [], example_db [])"
    by (simp add: in_use_start_using [OF in_use_example] in_use_connect [OF in_use_example])
  have b: "cd_file_map (example_store []) ''b.py'' = None"
    and a: "cd_file_map (example_store []) ''a.py'' = Some 1"
    by (simp_all add: example_store_def)
  have arcs_off: "\<not> has_arcs (example_store [])"
    by (simp add: has_arcs_def example_store_def)
  have keys: "{int n | n c numbits. (1, c, numbits) \<in> set (line_bits_rows (example_db [])) \<and>
                 in_query_contexts (example_store []) c \<and> c \<in> fst ` set (context_rows (example_db [])) \<and>
                 n \<in> set (numbits_to_nums numbits)} = {1, 2, 5}"
    by (auto simp: example_db_def example_store_def in_query_contexts_def numbits_38)
  from contexts_by_lineno_keys [OF c, of "''b.py''"] b
  have unknown: "contexts_by_lineno (example_store []) ''b.py'' = Inr (example_store [], []) \<and>
     lines (example_store []) ''b.py'' = Inr (example_store [], None) \<and>
     arcs (example_store []) ''b.py'' = Inr (example_store [], None)"
    by blast
  from contexts_by_lineno_keys [OF c, of "''a.py''"] a arcs_off keys
  have known: "\<exists>m. contexts_by_lineno (example_store []) ''a.py'' = Inr (example_store [], m) \<and>
        fst ` set m = {1, 2, 5}"
    by (simp del: set_map) blast
  from c b a unknown known show ?thesis by blast
qed

section \<open>Conflicting file tracers in update\<close>

text \<open>
  \<open>unique_rows\<close> collects the uniqueness constraints that SQLite keeps on the tables of
  \<^verbatim>\<open>SCHEMA\<close>: the primary keys \<^verbatim>\<open>file.id\<close>, \<^verbatim>\<open>context.id\<close>,
  \<^verbatim>\<open>tracer.file_id\<close> and \<^verbatim>\<open>unique (path)\<close>, \<^verbatim>\<open>unique (context)\<close>,
  \<^verbatim>\<open>unique (file_id, context_id)\<close>. \<open>tracer_name db path\<close> is what
  \<^verbatim>\<open>file_tracer(path)\<close> answers on the database: \<open>None\<close> for a path that has no file
  row, the empty string for a file with no tracer row.
\<close>

definition tracer_conflict :: "error \<Rightarrow> bool" where
  "tracer_conflict e \<longleftrightarrow> (\<exists>path. e = CoverageException (conflicting_tracer_msg path))"

lemma not_conflict_simps [simp]:
  "\<not> tracer_conflict KeyError" "\<not> tracer_conflict ValueError"
  "\<not> tracer_conflict AssertionError" "\<not> tracer_conflict IntegrityError"
  "\<not> tracer_conflict ConfigError"
  "\<not> tracer_conflict (CoverageException ''Couldn't use data file'')"
  "\<not> tracer_conflict (CoverageException ''Data file doesn't seem to be a coverage data file'')"
  "\<not> tracer_conflict (CoverageException ''Couldn't use data file: wrong schema'')"
  "\<not> tracer_conflict (CoverageException ''Can't add lines to existing arc data'')"
  "\<not> tracer_conflict (CoverageException ''Can't add arcs to existing line data'')"
  by (simp_all add: tracer_conflict_def conflicting_tracer_msg_def)

lemma tracer_conflict_msg [simp]: "tracer_conflict (CoverageException (conflicting_tracer_msg path))"
  by (auto simp: tracer_conflict_def)

lemma then_res_Inl: "then_res r f = Inl e \<longleftrightarrow> r = Inl e \<or> (\<exists>x. r = Inr x \<and> f x = Inl e)"
  by (cases r) (auto simp: then_res_def)

lemma fold_res_Inl:
  "fold_res f xs s = Inl e \<Longrightarrow> \<exists>x \<in> set xs. \<exists>t. f x t = Inl e"
  by (induction xs arbitrary: s) (auto split: sum.splits)

lemma map_res_Inl:
  "map_res f xs = Inl e \<Longrightarrow> \<exists>x \<in> set xs. f x = Inl e"
  by (induction xs) (auto simp: then_res_Inl)

lemma read_db_not_conflict: "read_db s = Inl e \<Longrightarrow> \<not> tracer_conflict e"
proof -
  assume a: "read_db s = Inl e"
  show ?thesis
  proof (cases "cd_store s")
    case None
    with a show ?thesis by (auto simp: read_db_def)
  next
    case (Some db)
    show ?thesis
    proof (cases "coverage_schema db")
      case Nil
      with a Some show ?thesis by (auto simp: read_db_def)
    next
      case (Cons v vs)
      show ?thesis
      proof (cases "v = SCHEMA_VERSION")
        case False
        with a Some Cons show ?thesis by (auto simp: read_db_def)
      next
        case True
        with a Some Cons have "fold_res
              (\<lambda>row s1. then_res (bool_of_text row)
                 (\<lambda>b. Inr (s1 \<lparr> cd_has_arcs := b, cd_has_lines := \<not> b \<rparr>)))
              (map snd (filter (\<lambda>(key, v). key = ''has_arcs'') (meta_rows db))) s = Inl e"
          by (auto simp: read_db_def then_res_Inl)
        from fold_res_Inl [OF this] show ?thesis
          by (auto simp: then_res_Inl bool_of_text_def split: if_splits)
      qed
    qed
  qed
qed

lemma connect_not_conflict: "connect s = Inl e \<Longrightarrow> \<not> tracer_conflict e"
  by (auto simp: connect_def then_res_Inl open_db_def create_db_def
      dest: read_db_not_conflict split: if_splits option.splits)

lemma read_not_conflict: "read s = Inl e \<Longrightarrow> \<not> tracer_conflict e"
  by (auto simp: read_def then_res_Inl dest: connect_not_conflict)

lemma choose_not_conflict: "choose_lines_or_arcs s l a = Inl e \<Longrightarrow> \<not> tracer_conflict e"
  by (auto simp: choose_lines_or_arcs_def then_res_Inl dest: connect_not_conflict
      split: if_splits)

lemma subscript_not_conflict: "subscript d k = Inl e \<Longrightarrow> \<not> tracer_conflict e"
  by (auto simp: subscript_def split: option.splits)

lemma write_arcs_not_conflict:
  "write_arcs file_ids context_ids arc_list s = Inl e \<Longrightarrow> \<not> tracer_conflict e"
  by (auto simp: write_arcs_def then_res_Inl
      dest: connect_not_conflict choose_not_conflict subscript_not_conflict
      dest!: map_res_Inl)

lemma write_lines_not_conflict:
  "write_lines file_ids context_ids line_dict s = Inl e \<Longrightarrow> \<not> tracer_conflict e"
  by (auto simp: write_lines_def then_res_Inl
      dest: connect_not_conflict choose_not_conflict subscript_not_conflict
      dest!: map_res_Inl split: if_splits)

lemma write_tracers_not_conflict:
  "write_tracers file_ids tracer_map s = Inl e \<Longrightarrow> \<not> tracer_conflict e"
  by (auto simp: write_tracers_def then_res_Inl
      dest: connect_not_conflict subscript_not_conflict
      dest!: map_res_Inl)

lemma update_write_rows_not_conflict:
  "update_write_rows file_ids context_ids arc_list line_dict tracer_map s = Inl e \<Longrightarrow>
   \<not> tracer_conflict e"
  by (auto simp: update_write_rows_def then_res_Inl
      dest: write_arcs_not_conflict write_lines_not_conflict write_tracers_not_conflict
      split: if_splits)

definition conflicting :: "(string \<times> string) list \<Rightarrow> (string \<times> string) list \<Rightarrow> string \<Rightarrow> bool" where
  "conflicting this_tracers tracers path \<longleftrightarrow>
     (\<exists>t. map_of this_tracers path = Some t \<and>
          t \<noteq> (case map_of tracers path of None \<Rightarrow> [] | Some u \<Rightarrow> u))"

lemma tracer_map_step_cases:
  "tracer_map_step this_tracers tracers path tm =
     (if conflicting this_tracers tracers path
      then Inl (CoverageException (conflicting_tracer_msg path))
      else Inr (AList.update path (case map_of tracers path of None \<Rightarrow> [] | Some u \<Rightarrow> u) tm))"
  by (auto simp: tracer_map_step_def conflicting_def Let_def)

lemma tracer_fold_ok:
  "\<forall>p \<in> set paths. \<not> conflicting this_tracers tracers p \<Longrightarrow>
   \<exists>tm. fold_res (tracer_map_step this_tracers tracers) paths acc = Inr tm"
  by (induction paths arbitrary: acc) (auto simp: tracer_map_step_cases)

lemma tracer_fold_conflict:
  "\<exists>p \<in> set paths. conflicting this_tracers tracers p \<Longrightarrow>
   \<exists>p \<in> set paths. conflicting this_tracers tracers p \<and>
     fold_res (tracer_map_step this_tracers tracers) paths acc =
       Inl (CoverageException (conflicting_tracer_msg p))"
proof (induction paths arbitrary: acc)
  case Nil
  then show ?case by simp
next
  case (Cons q paths)
  show ?case
  proof (cases "conflicting this_tracers tracers q")
    case True
    then show ?thesis by (auto simp: tracer_map_step_cases)
  next
    case False
    with Cons.prems have "\<exists>p \<in> set paths. conflicting this_tracers tracers p" by auto
    from Cons.IH [OF this] show ?thesis
      using False by (auto simp: tracer_map_step_cases)
  qed
qed

lemma in_use_read: "in_use s db \<Longrightarrow> read s = Inr s"
  by (cases s) (auto simp: read_def in_use_def connect_def)

lemma update_write_conflict_iff:
  assumes "in_use s db"
  shows "(\<exists>e. tracer_conflict e \<and>
            update_write aliases_map s files_values contexts arc_list line_dict tracers = Inl e) \<longleftrightarrow>
         (\<exists>p \<in> set files_values. conflicting (this_tracers_of aliases_map db) tracers p)"
proof (cases "\<exists>p \<in> set files_values. conflicting (this_tracers_of aliases_map db) tracers p")
  case True
  from tracer_fold_conflict [OF True, of "[]"] obtain p where
    "fold_res (tracer_map_step (this_tracers_of aliases_map db) tracers) files_values [] =
       Inl (CoverageException (conflicting_tracer_msg p))" by blast
  then have "update_write aliases_map s files_values contexts arc_list line_dict tracers =
       Inl (CoverageException (conflicting_tracer_msg p))"
    using assms by (simp add: update_write_def Let_def)
  with True show ?thesis by auto
next
  case False
  then obtain tm where
    "fold_res (tracer_map_step (this_tracers_of aliases_map db) tracers) files_values [] = Inr tm"
    using tracer_fold_ok [of files_values "this_tracers_of aliases_map db" tracers "[]"] by blast
  then have "update_write aliases_map s files_values contexts arc_list line_dict tracers =
       update_write_rows (file_ids_of (insert_files_contexts files_values contexts db))
         (context_ids_of (insert_files_contexts files_values contexts db)) arc_list
         (merged_lines aliases_map (insert_files_contexts files_values contexts db) line_dict) tm
         (s \<lparr> cd_store := Some (insert_files_contexts files_values contexts db) \<rparr>)"
    using assms by (simp add: update_write_def Let_def)
  with False show ?thesis by (auto dest: update_write_rows_not_conflict)
qed

lemma update_conflict_iff:
  assumes "in_use s db" "in_use other odb"
    and "\<not> (cd_has_lines s \<and> cd_has_arcs other)" "\<not> (cd_has_arcs s \<and> cd_has_lines other)"
  shows "(\<exists>e. tracer_conflict e \<and> update aliases_map s other = Inl e) \<longleftrightarrow>
         (\<exists>p \<in> set (other_files_values aliases_map odb).
            conflicting (this_tracers_of aliases_map db) (other_tracers aliases_map odb) p)"
proof -
  let ?w = "update_write aliases_map s
                    (other_files_values aliases_map odb) (other_contexts odb)
                    (other_arcs aliases_map odb) (other_lines aliases_map odb)
                    (other_tracers aliases_map odb)"
  have u: "update aliases_map s other =
      then_res ?w (\<lambda>s1. then_res (read (reset s1)) (\<lambda>s2. Inr (s2, other)))"
    using assms by (auto simp add: update_def in_use_read)
  have "(\<exists>e. tracer_conflict e \<and> update aliases_map s other = Inl e) \<longleftrightarrow>
        (\<exists>e. tracer_conflict e \<and> ?w = Inl e)"
    unfolding u by (auto simp: then_res_Inl dest: read_not_conflict)
  then show ?thesis using update_write_conflict_iff [OF assms(1)] by simp
qed

definition unique_rows :: "database \<Rightarrow> bool" where
  "unique_rows db \<longleftrightarrow>
     distinct (map fst (file_rows db)) \<and> distinct (map snd (file_rows db)) \<and>
     distinct (map fst (context_rows db)) \<and> distinct (map snd (context_rows db)) \<and>
     distinct (map (\<lambda>(f, c, n). (f, c)) (line_bits_rows db)) \<and>
     distinct (map fst (tracer_rows db))"

definition tracer_name :: "database \<Rightarrow> string \<Rightarrow> string option" where
  "tracer_name db path =
     (case map_of (map (\<lambda>(i, p). (p, i)) (file_rows db)) path of
        None \<Rightarrow> None
      | Some i \<Rightarrow> Some (case map_of (tracer_rows db) i of None \<Rightarrow> [] | Some t \<Rightarrow> t))"

lemma map_of_fold_update:
  "map_of (fold (\<lambda>(k, v). AList.update k v) items d) = map_of d ++ map_of (rev items)"
proof (induction items arbitrary: d)
  case Nil
  then show ?case by simp
next
  case (Cons kv items)
  obtain k v where kv: "kv = (k, v)" by (cases kv)
  show ?case
    by (simp add: kv Cons.IH update_conv' map_add_upd_left fun_eq_iff map_add_def
        split: option.splits)
qed

lemma map_of_dict_of: "map_of (dict_of items) = map_of (rev items)"
  by (simp add: dict_of_def map_of_fold_update)

definition functional :: "('k \<times> 'v) set \<Rightarrow> bool" where
  "functional R \<longleftrightarrow> (\<forall>k v v'. (k, v) \<in> R \<longrightarrow> (k, v') \<in> R \<longrightarrow> v = v')"

lemma map_of_functional:
  assumes "functional (set xs)"
  shows "map_of xs k = Some v \<longleftrightarrow> (k, v) \<in> set xs"
proof
  assume "map_of xs k = Some v"
  then show "(k, v) \<in> set xs" by (rule map_of_SomeD)
next
  assume m: "(k, v) \<in> set xs"
  then obtain v' where v': "map_of xs k = Some v'" by (blast dest: weak_map_of_SomeI)
  then have "(k, v') \<in> set xs" by (rule map_of_SomeD)
  with m assms have "v = v'" by (auto simp: functional_def)
  with v' show "map_of xs k = Some v" by simp
qed

lemma functional_distinct: "distinct (map fst xs) \<Longrightarrow> functional (set xs)"
  unfolding functional_def by (metis map_of_eq_Some_iff option.inject)

lemma distinct_snd_unique:
  "distinct (map snd xs) \<Longrightarrow> (i, p) \<in> set xs \<Longrightarrow> (j, p) \<in> set xs \<Longrightarrow> i = j"
  by (induction xs) (auto simp: image_iff)

lemma distinct_fst_unique:
  "distinct (map fst xs) \<Longrightarrow> (i, p) \<in> set xs \<Longrightarrow> (i, q) \<in> set xs \<Longrightarrow> p = q"
  by (induction xs) (auto simp: image_iff)

lemma set_join_tracer_file:
  "set (join_tracer_file db) =
     {(path, t). \<exists>f. (f, t) \<in> set (tracer_rows db) \<and> (f, path) \<in> set (file_rows db)}"
  by (auto simp: join_tracer_file_def) force

lemma functional_join_tracer_file:
  "unique_rows db \<Longrightarrow> functional (set (join_tracer_file db))"
  unfolding functional_def set_join_tracer_file unique_rows_def
  by (auto dest: distinct_snd_unique distinct_fst_unique)

lemma map_of_swap_file_rows:
  assumes "unique_rows db"
  shows "map_of (map (\<lambda>(i, p). (p, i)) (file_rows db)) path = Some i \<longleftrightarrow>
         (i, path) \<in> set (file_rows db)"
proof -
  have "distinct (map fst (map (\<lambda>(i, p). (p, i)) (file_rows db)))"
    using assms by (simp add: unique_rows_def comp_def case_prod_beta)
  then show ?thesis by (auto simp: map_of_eq_Some_iff)
qed

lemma tracer_name_Some:
  assumes "unique_rows db"
  shows "tracer_name db path = Some t \<longleftrightarrow>
     (\<exists>i. (i, path) \<in> set (file_rows db) \<and>
          ((i, t) \<in> set (tracer_rows db) \<or> (t = [] \<and> i \<notin> fst ` set (tracer_rows db))))"
proof -
  have tr: "map_of (tracer_rows db) i = Some u \<longleftrightarrow> (i, u) \<in> set (tracer_rows db)" for i u
    using assms by (simp add: unique_rows_def)
  have trn: "map_of (tracer_rows db) i = None \<longleftrightarrow> i \<notin> fst ` set (tracer_rows db)" for i
    by (simp add: map_of_eq_None_iff)
  show ?thesis
  proof (cases "map_of (map (\<lambda>(i, p). (p, i)) (file_rows db)) path")
    case None
    then have "\<And>i. (i, path) \<notin> set (file_rows db)"
      using map_of_swap_file_rows [OF assms, of path] by auto
    with None show ?thesis by (simp add: tracer_name_def)
  next
    case (Some i)
    then have i: "(i, path) \<in> set (file_rows db)"
      using map_of_swap_file_rows [OF assms] by simp
    have only: "j = i" if "(j, path) \<in> set (file_rows db)" for j
      using assms that i by (auto simp: unique_rows_def dest: distinct_snd_unique)
    have rhs: "(\<exists>j. (j, path) \<in> set (file_rows db) \<and>
          ((j, t) \<in> set (tracer_rows db) \<or> (t = [] \<and> j \<notin> fst ` set (tracer_rows db)))) \<longleftrightarrow>
          ((i, t) \<in> set (tracer_rows db) \<or> (t = [] \<and> i \<notin> fst ` set (tracer_rows db)))"
      using i only by blast
    have lhs: "tracer_name db path = Some t \<longleftrightarrow>
          (case map_of (tracer_rows db) i of None \<Rightarrow> [] | Some u \<Rightarrow> u) = t"
      using Some by (simp add: tracer_name_def)
    show ?thesis
    proof (cases "map_of (tracer_rows db) i")
      case None
      then have a: "i \<notin> fst ` set (tracer_rows db)" using trn by simp
      then have b: "(i, t) \<notin> set (tracer_rows db)" by (metis fst_conv image_eqI)
      show ?thesis unfolding rhs lhs using None a b by auto
    next
      case (Some u)
      then have a: "(i, u) \<in> set (tracer_rows db)" using tr by simp
      then have b: "i \<in> fst ` set (tracer_rows db)" by (metis fst_conv image_eqI)
      have c: "(i, t) \<in> set (tracer_rows db) \<longleftrightarrow> u = t"
        using tr [of i t] Some by auto
      show ?thesis unfolding rhs lhs using Some b c by auto
    qed
  qed
qed

lemma option_eqI: "(\<And>t. a = Some t \<longleftrightarrow> b = Some t) \<Longrightarrow> a = b"
  by (cases a; cases b) auto

lemma map_of_rev_functional:
  "functional (set xs) \<Longrightarrow> map_of (rev xs) k = Some v \<longleftrightarrow> (k, v) \<in> set xs"
  using map_of_functional [of "rev xs" k v] by simp

lemma map_of_rev_None: "map_of (rev xs) k = None \<longleftrightarrow> k \<notin> fst ` set xs"
  by (simp add: map_of_eq_None_iff)

lemma functional_empty_names: "functional (set (map (\<lambda>(i, path). (path, [])) rows))"
  by (auto simp: functional_def)

lemma this_tracers_Some:
  assumes "unique_rows db"
  shows "map_of (this_tracers_of (\<lambda>path. path) db) path = Some t \<longleftrightarrow>
     (path, t) \<in> set (join_tracer_file db) \<or>
     (path \<notin> fst ` set (join_tracer_file db) \<and> t = [] \<and> path \<in> snd ` set (file_rows db))"
proof -
  have j: "map (\<lambda>(path, tracer). (path, tracer)) (join_tracer_file db) = join_tracer_file db"
    by simp
  have d: "map_of (rev (map (\<lambda>(i, path). (path, [])) (file_rows db))) path = Some t \<longleftrightarrow>
           t = [] \<and> path \<in> snd ` set (file_rows db)"
    using map_of_rev_functional [OF functional_empty_names, of "file_rows db" path t]
    by (auto simp: image_iff) force+
  show ?thesis
    unfolding this_tracers_of_def j map_of_fold_update map_of_dict_of map_add_Some_iff
      map_of_rev_functional [OF functional_join_tracer_file [OF assms]] map_of_rev_None d
    by blast
qed

lemma this_tracers_tracer_name:
  assumes "unique_rows db"
  shows "map_of (this_tracers_of (\<lambda>path. path) db) path = tracer_name db path"
proof (rule option_eqI)
  fix t
  have u: "i = j" if "(i, path) \<in> set (file_rows db)" "(j, path) \<in> set (file_rows db)" for i j
    using assms that by (auto simp: unique_rows_def dest: distinct_snd_unique)
  have v: "t1 = t2" if "(i, t1) \<in> set (tracer_rows db)" "(i, t2) \<in> set (tracer_rows db)" for i t1 t2
    using assms that by (auto simp: unique_rows_def dest: distinct_fst_unique)
  have i1: "path \<in> snd ` set (file_rows db) \<longleftrightarrow> (\<exists>i. (i, path) \<in> set (file_rows db))"
    by force
  have i2: "path \<in> fst ` {(path, t). \<exists>f. (f, t) \<in> set (tracer_rows db) \<and> (f, path) \<in> set (file_rows db)} \<longleftrightarrow>
            (\<exists>f t'. (f, t') \<in> set (tracer_rows db) \<and> (f, path) \<in> set (file_rows db))"
    by force
  have i3: "i \<in> fst ` set (tracer_rows db) \<longleftrightarrow> (\<exists>t'. (i, t') \<in> set (tracer_rows db))" for i
    by force
  show "map_of (this_tracers_of (\<lambda>path. path) db) path = Some t \<longleftrightarrow> tracer_name db path = Some t"
    unfolding this_tracers_Some [OF assms] tracer_name_Some [OF assms] set_join_tracer_file i1 i2 i3
    using u by (simp only: mem_Collect_eq prod.case) blast
qed

lemma set_fold_update_subset:
  "set (fold (\<lambda>(k, v). AList.update k v) items d) \<subseteq> set items \<union> set d"
proof (induction items arbitrary: d)
  case Nil
  then show ?case by simp
next
  case (Cons kv items)
  obtain k v where kv: "kv = (k, v)" by (cases kv)
  have "set (AList.update k v d) \<subseteq> insert (k, v) (set d)" by (rule set_update_subset)
  with Cons.IH [of "AList.update k v d"] show ?case unfolding kv by auto
qed

lemma keys_fold_update:
  "fst ` set (fold (\<lambda>(k, v). AList.update k v) items d) = fst ` set items \<union> fst ` set d"
proof (induction items arbitrary: d)
  case Nil
  then show ?case by simp
next
  case (Cons kv items)
  obtain k v where kv: "kv = (k, v)" by (cases kv)
  have "fst ` set (AList.update k v d) = insert k (fst ` set d)"
    by (simp add: dom_update)
  with Cons.IH [of "AList.update k v d"] show ?case unfolding kv by auto
qed

lemma other_files_values_id:
  "set (other_files_values (\<lambda>path. path) odb) = snd ` set (file_rows odb)"
proof -
  let ?items = "map (\<lambda>(i, path). (path, path)) (file_rows odb)"
  have sub: "set (dict_of ?items) \<subseteq> set ?items"
    using set_fold_update_subset [of ?items "[]"] by (simp add: dict_of_def)
  have keys: "fst ` set (dict_of ?items) = fst ` set ?items"
    using keys_fold_update [of ?items "[]"] by (simp add: dict_of_def)
  have same: "snd kv = fst kv" if "kv \<in> set (dict_of ?items)" for kv
    using sub that by auto
  have "snd ` set (dict_of ?items) = fst ` set (dict_of ?items)"
    using same by (auto simp: image_iff)
  also have "\<dots> = snd ` set (file_rows odb)"
    unfolding keys by (auto simp: image_iff) force+
  finally show ?thesis by (simp add: other_files_values_def)
qed

lemma other_tracer_name:
  assumes "unique_rows odb" and "(i, path) \<in> set (file_rows odb)"
  shows "tracer_name odb path =
     Some (case map_of (other_tracers (\<lambda>path. path) odb) path of None \<Rightarrow> [] | Some u \<Rightarrow> u)"
proof -
  have j: "map (\<lambda>(path, tracer). (path, tracer)) (join_tracer_file odb) = join_tracer_file odb"
    by simp
  have m: "map_of (other_tracers (\<lambda>path. path) odb) path = map_of (rev (join_tracer_file odb)) path"
    by (simp add: other_tracers_def j map_of_dict_of)
  have only: "j = i" if "(j, path) \<in> set (file_rows odb)" for j
    using assms that by (auto simp: unique_rows_def dest: distinct_snd_unique)
  show ?thesis
  proof (cases "map_of (rev (join_tracer_file odb)) path")
    case None
    then have "path \<notin> fst ` set (join_tracer_file odb)" by (simp add: map_of_rev_None)
    then have "\<And>t. (i, t) \<notin> set (tracer_rows odb)"
      using assms(2) unfolding set_join_tracer_file by force
    then have "i \<notin> fst ` set (tracer_rows odb)" by force
    with assms(2) have "tracer_name odb path = Some []"
      unfolding tracer_name_Some [OF assms(1)] by blast
    with None m show ?thesis by simp
  next
    case (Some u)
    then have "(path, u) \<in> set (join_tracer_file odb)"
      using map_of_rev_functional [OF functional_join_tracer_file [OF assms(1)]] by simp
    then obtain f where "(f, u) \<in> set (tracer_rows odb)" "(f, path) \<in> set (file_rows odb)"
      unfolding set_join_tracer_file by auto
    with only have "(i, u) \<in> set (tracer_rows odb)" by auto
    with assms(2) have "tracer_name odb path = Some u"
      unfolding tracer_name_Some [OF assms(1)] by blast
    with Some m show ?thesis by simp
  qed
qed

lemmas update_defs =
  update_def update_write_def update_write_rows_def write_arcs_def write_lines_def
  write_tracers_def insert_files_contexts_def file_ids_of_def context_ids_of_def
  merged_lines_def merge_line_row_def tracer_map_step_def this_tracers_of_def
  other_files_values_def other_contexts_def other_arcs_def other_lines_def other_tracers_def
  join_file_context_def join_tracer_file_def ignore_tracer_def dict_of_def subscript_def

text \<open>
  Claim C6, as the code has it. With no path aliases, \<^verbatim>\<open>update\<close> raises the exception
  \<^verbatim>\<open>Conflicting file tracer name\<close> exactly when some file of the other store is
  already a file of this store and the tracer name this store has for it (the empty
  string when it has none) differs from the tracer name the other store has for it (the
  empty string when it has none). A file without a tracer here and with a tracer there is
  a conflict, and so is a file with a tracer here and without one there.
\<close>

theorem update_tracer_conflict:
  assumes "in_use s db" "in_use other odb" "unique_rows db" "unique_rows odb"
    and "\<not> (cd_has_lines s \<and> cd_has_arcs other)" "\<not> (cd_has_arcs s \<and> cd_has_lines other)"
  shows "(\<exists>path. update (\<lambda>path. path) s other = Inl (CoverageException (conflicting_tracer_msg path))) \<longleftrightarrow>
         (\<exists>path t u. tracer_name db path = Some t \<and> tracer_name odb path = Some u \<and> t \<noteq> u)"
proof -
  have "(\<exists>path. update (\<lambda>path. path) s other = Inl (CoverageException (conflicting_tracer_msg path))) \<longleftrightarrow>
        (\<exists>e. tracer_conflict e \<and> update (\<lambda>path. path) s other = Inl e)"
    by (auto simp: tracer_conflict_def)
  also have "\<dots> \<longleftrightarrow> (\<exists>p \<in> set (other_files_values (\<lambda>path. path) odb).
            conflicting (this_tracers_of (\<lambda>path. path) db) (other_tracers (\<lambda>path. path) odb) p)"
    by (rule update_conflict_iff [OF assms(1,2,5,6)])
  also have "\<dots> \<longleftrightarrow> (\<exists>path t u. tracer_name db path = Some t \<and> tracer_name odb path = Some u \<and> t \<noteq> u)"
  proof
    assume "\<exists>p \<in> set (other_files_values (\<lambda>path. path) odb).
            conflicting (this_tracers_of (\<lambda>path. path) db) (other_tracers (\<lambda>path. path) odb) p"
    then obtain p i t where p: "(i, p) \<in> set (file_rows odb)"
      and t: "tracer_name db p = Some t"
      and ne: "t \<noteq> (case map_of (other_tracers (\<lambda>path. path) odb) p of None \<Rightarrow> [] | Some u \<Rightarrow> u)"
      unfolding other_files_values_id conflicting_def this_tracers_tracer_name [OF assms(3)]
      by force
    from other_tracer_name [OF assms(4) p] t ne
    show "\<exists>path t u. tracer_name db path = Some t \<and> tracer_name odb path = Some u \<and> t \<noteq> u"
      by blast
  next
    assume "\<exists>path t u. tracer_name db path = Some t \<and> tracer_name odb path = Some u \<and> t \<noteq> u"
    then obtain p t u where t: "tracer_name db p = Some t" and u: "tracer_name odb p = Some u"
      and ne: "t \<noteq> u" by blast
    from u obtain i where i: "(i, p) \<in> set (file_rows odb)"
      unfolding tracer_name_Some [OF assms(4)] by blast
    from other_tracer_name [OF assms(4) i] u
    have "u = (case map_of (other_tracers (\<lambda>path. path) odb) p of None \<Rightarrow> [] | Some u \<Rightarrow> u)"
      by simp
    with t ne have "conflicting (this_tracers_of (\<lambda>path. path) db) (other_tracers (\<lambda>path. path) odb) p"
      unfolding conflicting_def this_tracers_tracer_name [OF assms(3)] by simp
    moreover from i have "p \<in> set (other_files_values (\<lambda>path. path) odb)"
      unfolding other_files_values_id by force
    ultimately show "\<exists>p \<in> set (other_files_values (\<lambda>path. path) odb).
            conflicting (this_tracers_of (\<lambda>path. path) db) (other_tracers (\<lambda>path. path) odb) p"
      by blast
  qed
  finally show ?thesis .
qed

theorem update_tracer_conflict_witness:
  "in_use (example_store []) (example_db []) \<and>
   in_use (example_store [(1, ''plugin'')]) (example_db [(1, ''plugin'')]) \<and>
   unique_rows (example_db []) \<and> unique_rows (example_db [(1, ''plugin'')]) \<and>
   (\<exists>path t u. tracer_name (example_db [(1, ''plugin'')]) path = Some t \<and>
        tracer_name (example_db []) path = Some u \<and> t \<noteq> u) \<and>
   (\<exists>path. update (\<lambda>path. path) (example_store [(1, ''plugin'')]) (example_store []) =
        Inl (CoverageException (conflicting_tracer_msg path))) \<and>
   \<not> (\<exists>path t u. tracer_name (example_db []) path = Some t \<and>
        tracer_name (example_db []) path = Some u \<and> t \<noteq> u) \<and>
   \<not> (\<exists>path. update (\<lambda>path. path) (example_store []) (example_store []) =
        Inl (CoverageException (conflicting_tracer_msg path)))"
proof -
  have u: "unique_rows (example_db [])" "unique_rows (example_db [(1, ''plugin'')])"
    by (simp_all add: unique_rows_def example_db_def)
  have m: "\<not> (cd_has_lines (example_store tr) \<and> cd_has_arcs (example_store tr'))"
    "\<not> (cd_has_arcs (example_store tr) \<and> cd_has_lines (example_store tr'))" for tr tr'
    by (simp_all add: example_store_def)
  have a: "\<exists>path t u. tracer_name (example_db [(1, ''plugin'')]) path = Some t \<and>
        tracer_name (example_db []) path = Some u \<and> t \<noteq> u"
  proof (intro exI conjI)
    show "tracer_name (example_db [(1, ''plugin'')]) ''a.py'' = Some ''plugin''"
      by (simp add: tracer_name_def example_db_def)
    show "tracer_name (example_db []) ''a.py'' = Some []"
      by (simp add: tracer_name_def example_db_def)
    show "''plugin'' \<noteq> []" by simp
  qed
  have b: "\<not> (\<exists>path t u. tracer_name (example_db []) path = Some t \<and>
        tracer_name (example_db []) path = Some u \<and> t \<noteq> u)"
    by auto
  note c1 = update_tracer_conflict [OF in_use_example in_use_example u(2) u(1) m]
  note c2 = update_tracer_conflict [OF in_use_example in_use_example u(1) u(1) m]
  from a b c1 c2 u in_use_example show ?thesis by blast
qed

text \<open>
  The claim as stated fails on a file that this store measured without a tracer: merging
  a store that has the tracer \<^verbatim>\<open>plugin\<close> for \<^verbatim>\<open>a.py\<close> into a store that has
  \<^verbatim>\<open>a.py\<close> with no tracer raises.
\<close>

theorem update_tracer_conflict_counterexample:
  "tracer_name (example_db []) ''a.py'' = Some [] \<and>
   tracer_name (example_db [(1, ''plugin'')]) ''a.py'' = Some ''plugin'' \<and>
   update (\<lambda>path. path) (example_store []) (example_store [(1, ''plugin'')]) =
     Inl (CoverageException (conflicting_tracer_msg ''a.py''))"
  by (simp add: tracer_name_def update_defs model_defs example_store_def example_db_def)

section \<open>Formatting line numbers (results.py)\<close>

text \<open>
  \<^verbatim>\<open>"%d" % n\<close>: the decimal digits of an integer, with a minus sign for a negative one.
\<close>

fun str_nat :: "nat \<Rightarrow> string" where
  "str_nat n =
     (if n < 10 then [char_of (48 + n)]
      else str_nat (n div 10) @ [char_of (48 + n mod 10)])"

declare str_nat.simps [simp del]

definition str_int :: "int \<Rightarrow> string" where
  "str_int i = (if i < 0 then ''-'' @ str_nat (nat (- i)) else str_nat (nat i))"

text \<open>
  Modelled from the spec: \<^verbatim>\<open>nice_pair\<close> is imported from \<^verbatim>\<open>coverage.misc\<close>, which
  is not among the sources. The spec (4.5): runs coalesce into \<^verbatim>\<open>a-b\<close>; singletons
  render as \<^verbatim>\<open>a\<close>.
\<close>

definition nice_pair :: "int \<times> int \<Rightarrow> string" where
  "nice_pair pair =
     (case pair of (start, end) \<Rightarrow>
        if start = end then str_int start else str_int start @ ''-'' @ str_int end)"

text \<open>Python's truth value of \<^verbatim>\<open>start: Optional[TLineNo]\<close>: \<^verbatim>\<open>None\<close> and 0 are false.\<close>

definition truthy :: "int option \<Rightarrow> bool" where
  "truthy start = (case start of None \<Rightarrow> False | Some v \<Rightarrow> v \<noteq> 0)"

text \<open>
  The loop of \<^verbatim>\<open>_line_ranges\<close> (results.py, lines 315-325) over the sorted statements,
  with its state \<^verbatim>\<open>pairs\<close>, \<^verbatim>\<open>start\<close>, \<^verbatim>\<open>end\<close>, \<^verbatim>\<open>lidx\<close>; it stops at the
  \<^verbatim>\<open>break\<close>. The variable \<^verbatim>\<open>end\<close> has no value before the first match; it is read
  only where \<^verbatim>\<open>start\<close> is true, which a match has made so together with \<^verbatim>\<open>end\<close>.
\<close>

fun line_ranges_loop ::
  "int list \<Rightarrow> int list \<Rightarrow> (int \<times> int) list \<Rightarrow> int option \<Rightarrow> int \<Rightarrow> nat \<Rightarrow>
   (int \<times> int) list \<times> int option \<times> int" where
  "line_ranges_loop [] lines_sorted pairs start end lidx = (pairs, start, end)"
| "line_ranges_loop (stmt # statements) lines_sorted pairs start end lidx =
     (if lidx \<ge> length lines_sorted then (pairs, start, end)
      else if stmt = lines_sorted ! lidx
        then line_ranges_loop statements lines_sorted pairs
               (if \<not> truthy start then Some stmt else start) stmt (lidx + 1)
      else if truthy start
        then line_ranges_loop statements lines_sorted
               (pairs @ [(case start of Some v \<Rightarrow> v | None \<Rightarrow> 0, end)]) None end lidx
      else line_ranges_loop statements lines_sorted pairs start end lidx)"

definition line_ranges :: "int list \<Rightarrow> int list \<Rightarrow> (int \<times> int) list" where
  "line_ranges statements line_list =
     (case line_ranges_loop (sort statements) (sort line_list) [] None 0 0 of
        (pairs, start, end) \<Rightarrow>
          if truthy start then pairs @ [(case start of Some v \<Rightarrow> v | None \<Rightarrow> 0, end)]
          else pairs)"

text \<open>\<^verbatim>\<open>sep.join(strings)\<close>.\<close>

fun join :: "string \<Rightarrow> string list \<Rightarrow> string" where
  "join sep [] = []"
| "join sep [x] = x"
| "join sep (x # y # ys) = x @ sep @ join sep (y # ys)"

text \<open>
  \<^verbatim>\<open>format_lines(statements, lines, arcs=None)\<close>. The tuples \<^verbatim>\<open>(line, text)\<close> and
  \<^verbatim>\<open>(line, exits)\<close> are sorted as Python sorts tuples, first by the line and then by
  the second component (strings by character, lists of integers item by item).
\<close>

definition arc_items :: "int list \<Rightarrow> (int \<times> int list) list \<Rightarrow> (int \<times> string) list" where
  "arc_items line_list arc_list =
     concat (map (\<lambda>(line, exits).
                    concat (map (\<lambda>ex. if line \<notin> set line_list \<and> ex \<notin> set line_list
                                       then [(line, str_int line @ ''->'' @
                                                    (if ex > 0 then str_int ex else ''exit''))]
                                       else [])
                                (sort exits)))
                 (sort arc_list))"

definition format_lines :: "int list \<Rightarrow> int list \<Rightarrow> (int \<times> int list) list option \<Rightarrow> string" where
  "format_lines statements line_list arc_list =
     (let line_items = map (\<lambda>pair. (fst pair, nice_pair pair)) (line_ranges statements line_list);
          line_items1 = (case arc_list of
                           None \<Rightarrow> line_items
                         | Some al \<Rightarrow> line_items @ arc_items line_list al)
      in join '', '' (map snd (sort line_items1)))"

text \<open>
  The spec's words for the ranges: the consecutive runs of (sorted) statements that fall
  in the missing lines, each as its first and last line.
\<close>

function runs :: "int list \<Rightarrow> int set \<Rightarrow> (int \<times> int) list" where
  "runs [] L = []"
| "runs (s # ss) L =
     (if s \<in> L
      then (s, last (s # takeWhile (\<lambda>x. x \<in> L) ss)) # runs (dropWhile (\<lambda>x. x \<in> L) ss) L
      else runs ss L)"
  by pat_completeness auto
termination
  by (relation "measure (\<lambda>(xs, L). length xs)") (auto simp: length_dropWhile_le less_Suc_eq_le)

subsection \<open>The ranges are the runs of missing statements\<close>

definition finish :: "(int \<times> int) list \<times> int option \<times> int \<Rightarrow> (int \<times> int) list" where
  "finish st = (case st of (pairs, start, end) \<Rightarrow>
      if truthy start then pairs @ [(case start of Some v \<Rightarrow> v | None \<Rightarrow> 0, end)] else pairs)"

lemma line_ranges_finish:
  "line_ranges statements line_list =
     finish (line_ranges_loop (sort statements) (sort line_list) [] None 0 0)"
  by (simp add: line_ranges_def finish_def)

lemma runs_none: "\<forall>x \<in> set xs. x \<notin> L \<Longrightarrow> runs xs L = []"
  by (induction xs) auto

lemma filter_empty_takeWhile: "filter P xs = [] \<Longrightarrow> takeWhile P xs = [] \<and> dropWhile P xs = xs"
  by (cases xs) (auto simp: filter_empty_conv)

lemma loop_runs:
  assumes "drop lidx ls = filter (\<lambda>x. x \<in> L) rest" "distinct rest" "\<forall>x \<in> set rest. x \<noteq> 0"
  shows "finish (line_ranges_loop rest ls pairs None e lidx) = pairs @ runs rest L \<and>
         (v \<noteq> 0 \<longrightarrow> finish (line_ranges_loop rest ls pairs (Some v) e lidx) =
           pairs @ (v, last (e # takeWhile (\<lambda>x. x \<in> L) rest)) #
             runs (dropWhile (\<lambda>x. x \<in> L) rest) L)"
  using assms
proof (induction rest arbitrary: pairs e lidx v)
  case Nil
  show ?case by (simp add: finish_def truthy_def)
next
  case (Cons stmt rest)
  have d: "distinct rest" and nz: "\<forall>x \<in> set rest. x \<noteq> 0" and s0: "stmt \<noteq> 0"
    and notin: "stmt \<notin> set rest"
    using Cons.prems(2,3) by auto
  note inv = Cons.prems(1)
  have hd_eq: "ls ! lidx = hd (filter (\<lambda>x. x \<in> L) (stmt # rest))" if "lidx < length ls"
    using inv that by (metis hd_drop_conv_nth)
  show ?case
  proof (cases "lidx \<ge> length ls")
    case True
    then have "drop lidx ls = []" by simp
    with inv have "filter (\<lambda>x. x \<in> L) (stmt # rest) = []" by metis
    then have none: "\<forall>x \<in> set (stmt # rest). x \<notin> L"
      unfolding filter_empty_conv by blast
    then have "runs (stmt # rest) L = []" by (rule runs_none)
    with True none show ?thesis by (simp add: finish_def truthy_def)
  next
    case False
    then have lt: "lidx < length ls" by simp
    show ?thesis
    proof (cases "stmt \<in> L")
      case True
      have dr: "drop lidx ls = stmt # filter (\<lambda>x. x \<in> L) rest" using inv True by simp
      have eq: "ls ! lidx = stmt" using hd_eq [OF lt] True by simp
      have inv': "drop (lidx + 1) ls = filter (\<lambda>x. x \<in> L) rest"
        using dr by (metis Suc_eq_plus1 drop_Suc tl_drop list.sel(3))
      from Cons.IH [OF inv' d nz, of pairs stmt stmt] s0
      have a: "finish (line_ranges_loop rest ls pairs (Some stmt) stmt (lidx + 1)) =
           pairs @ (stmt, last (stmt # takeWhile (\<lambda>x. x \<in> L) rest)) #
             runs (dropWhile (\<lambda>x. x \<in> L) rest) L" by simp
      from Cons.IH [OF inv' d nz, of pairs stmt v]
      have b: "v \<noteq> 0 \<Longrightarrow> finish (line_ranges_loop rest ls pairs (Some v) stmt (lidx + 1)) =
           pairs @ (v, last (stmt # takeWhile (\<lambda>x. x \<in> L) rest)) #
             runs (dropWhile (\<lambda>x. x \<in> L) rest) L" by simp
      show ?thesis using lt eq True a b by (simp add: truthy_def)
    next
      case False
      have e: "drop lidx ls = filter (\<lambda>x. x \<in> L) rest" using inv False by simp
      then have "filter (\<lambda>x. x \<in> L) rest \<noteq> []" using lt by (metis drop_eq_Nil not_le)
      then have "hd (filter (\<lambda>x. x \<in> L) rest) \<in> set rest"
        by (metis filter_is_subset hd_in_set subsetD)
      with e hd_eq [OF lt] False notin have ne: "ls ! lidx \<noteq> stmt" by auto
      from Cons.IH [OF e d nz, of pairs e v]
      have a: "finish (line_ranges_loop rest ls pairs None e lidx) = pairs @ runs rest L" by simp
      from Cons.IH [OF e d nz, of "pairs @ [(v, e)]" e v]
      have b: "finish (line_ranges_loop rest ls (pairs @ [(v, e)]) None e lidx) =
           (pairs @ [(v, e)]) @ runs rest L" by simp
      show ?thesis using lt ne False a b by (simp add: truthy_def)
    qed
  qed
qed

lemma sort_lines_filter:
  assumes "distinct statements" "distinct line_list" "set line_list \<subseteq> set statements"
  shows "sort line_list = filter (\<lambda>x. x \<in> set line_list) (sort statements)"
proof (rule sorted_distinct_set_unique)
  show "sorted (sort line_list)" by simp
  show "distinct (sort line_list)" using assms(2) by simp
  show "sorted (filter (\<lambda>x. x \<in> set line_list) (sort statements))"
    by (simp add: sorted_wrt_filter)
  show "distinct (filter (\<lambda>x. x \<in> set line_list) (sort statements))"
    using assms(1) by simp
  show "set (sort line_list) = set (filter (\<lambda>x. x \<in> set line_list) (sort statements))"
    using assms(3) by auto
qed

lemma line_ranges_runs:
  assumes "distinct statements" "distinct line_list" "set line_list \<subseteq> set statements"
    "\<forall>x \<in> set statements. 0 < x"
  shows "line_ranges statements line_list = runs (sort statements) (set line_list)"
proof -
  have "drop 0 (sort line_list) = filter (\<lambda>x. x \<in> set line_list) (sort statements)"
    using sort_lines_filter [OF assms(1-3)] by simp
  moreover have "distinct (sort statements)" using assms(1) by simp
  moreover have "\<forall>x \<in> set (sort statements). x \<noteq> 0" using assms(4) by auto
  ultimately show ?thesis
    unfolding line_ranges_finish
    using loop_runs [of 0 "sort line_list" "set line_list" "sort statements" "[]" 0 0]
    by simp
qed

lemma runs_starts:
  "sorted_wrt (<) xs \<Longrightarrow>
   sorted_wrt (<) (map fst (runs xs L)) \<and> fst ` set (runs xs L) \<subseteq> set xs"
proof (induction xs L rule: runs.induct)
  case (1 L)
  then show ?case by simp
next
  case (2 s ss L)
  from "2.prems" have ss: "sorted_wrt (<) ss" and lt: "\<forall>x \<in> set ss. s < x" by auto
  show ?case
  proof (cases "s \<in> L")
    case False
    with "2.IH"(2) ss show ?thesis by auto
  next
    case True
    have "sorted_wrt (<) (dropWhile (\<lambda>x. x \<in> L) ss)"
      using ss by simp
    with "2.IH"(1) [OF True] have
      a: "sorted_wrt (<) (map fst (runs (dropWhile (\<lambda>x. x \<in> L) ss) L))"
      and b: "fst ` set (runs (dropWhile (\<lambda>x. x \<in> L) ss) L) \<subseteq> set (dropWhile (\<lambda>x. x \<in> L) ss)"
      by auto
    have c: "set (dropWhile (\<lambda>x. x \<in> L) ss) \<subseteq> set ss" by (rule set_dropWhileD [THEN subsetI])
    from a b c lt True show ?thesis by (auto simp: image_subset_iff)
  qed
qed

lemma sorted_by_fst:
  fixes xs :: "(int \<times> string) list"
  shows "sorted_wrt (<) (map fst xs) \<Longrightarrow> sorted xs"
  by (induction xs) (auto simp: less_eq_prod_def)

text \<open>
  Claim C8. For statements and missing lines given without repetitions, all positive,
  the missing lines among the statements, \<^verbatim>\<open>format_lines\<close> (and so
  \<^verbatim>\<open>missing_formatted\<close> without branches) is the tokens of the consecutive runs of
  sorted statements that are missing, joined with \<^verbatim>\<open>", "\<close>: a run is rendered
  \<^verbatim>\<open>a\<close> when it has one line and \<^verbatim>\<open>a-b\<close> otherwise, and the tokens stand in
  ascending order of their first lines. The example of the docstring gives
  \<^verbatim>\<open>"1-2, 5-11, 13-14"\<close>: a run goes on over lines that are not statements.
\<close>

theorem format_lines_runs:
  assumes "distinct statements" "distinct line_list" "set line_list \<subseteq> set statements"
    "\<forall>x \<in> set statements. 0 < x"
  shows "format_lines statements line_list None =
           join '', '' (map nice_pair (runs (sort statements) (set line_list))) \<and>
         sorted_wrt (<) (map fst (runs (sort statements) (set line_list))) \<and>
         (\<forall>a b. nice_pair (a, b) = (if a = b then str_int a else str_int a @ ''-'' @ str_int b))"
proof -
  let ?rs = "runs (sort statements) (set line_list)"
  have strict: "sorted_wrt (<) (sort statements)"
    using assms(1) by (simp add: strict_sorted_iff)
  have asc: "sorted_wrt (<) (map fst ?rs)"
    using runs_starts [OF strict] by simp
  let ?items = "map (\<lambda>pair. (fst pair, nice_pair pair)) ?rs"
  have "sorted ?items"
    by (rule sorted_by_fst) (simp add: comp_def asc)
  then have "sort ?items = ?items" by (rule sort_key_id_if_sorted [where f = "\<lambda>x. x", simplified])
  then have "format_lines statements line_list None = join '', '' (map snd ?items)"
    by (simp add: format_lines_def line_ranges_runs [OF assms])
  also have "map snd ?items = map nice_pair ?rs" by (simp add: comp_def)
  finally show ?thesis using asc by (simp add: nice_pair_def)
qed

theorem format_lines_runs_witness:
  "distinct [1, 2, 3, 4, 5, 10, 11, 12, 13, 14 :: int] \<and>
   distinct [1, 2, 5, 10, 11, 13, 14 :: int] \<and>
   set [1, 2, 5, 10, 11, 13, 14 :: int] \<subseteq> set [1, 2, 3, 4, 5, 10, 11, 12, 13, 14] \<and>
   list_all (\<lambda>x. 0 < x) [1, 2, 3, 4, 5, 10, 11, 12, 13, 14 :: int] \<and>
   format_lines [1, 2, 3, 4, 5, 10, 11, 12, 13, 14] [1, 2, 5, 10, 11, 13, 14] None =
     ''1-2, 5-11, 13-14''"
proof -
  have d: "distinct [1, 2, 3, 4, 5, 10, 11, 12, 13, 14 :: int]"
    "distinct [1, 2, 5, 10, 11, 13, 14 :: int]" by simp_all
  have s: "set [1, 2, 5, 10, 11, 13, 14 :: int] \<subseteq> set [1, 2, 3, 4, 5, 10, 11, 12, 13, 14]"
    by simp
  have p: "\<forall>x \<in> set [1, 2, 3, 4, 5, 10, 11, 12, 13, 14 :: int]. 0 < x" by simp
  have r: "join '', '' (map nice_pair (runs (sort [1, 2, 3, 4, 5, 10, 11, 12, 13, 14])
              (set [1, 2, 5, 10, 11, 13, 14]))) = ''1-2, 5-11, 13-14''"
    by code_simp
  from format_lines_runs [OF d s p] r d s show ?thesis by simp
qed

section \<open>The REGEXP function\<close>

text \<open>
  A regular expression matches somewhere inside a string when some part of the string is
  one of the strings the expression stands for; a pattern of ordinary characters stands
  for itself only, so it matches somewhere inside \<open>s\<close> when it occurs in \<open>s\<close>.
\<close>

definition occurs_in :: "string \<Rightarrow> string \<Rightarrow> bool" where
  "occurs_in p s \<longleftrightarrow> (\<exists>u v. s = u @ p @ v)"

text \<open>
  A concrete object with two contexts: the one that
  \<^verbatim>\<open>add_lines({"a.py": {1, 2, 5}})\<close>, \<^verbatim>\<open>set_context("test_one")\<close> and
  \<^verbatim>\<open>add_lines({"a.py": {2}})\<close> leave when called on a new object.
\<close>

definition contexts_db :: database where
  "contexts_db =
     \<lparr> coverage_schema = [7],
       meta_rows = [(''sys_argv'', []), (''version'', []), (''when'', []), (''has_arcs'', ''0'')],
       file_rows = [(1, ''a.py'')],
       context_rows = [(1, []), (2, ''test_one'')],
       line_bits_rows = [(1, 1, [38]), (1, 2, [4])],
       arc_rows = [],
       tracer_rows = [] \<rparr>"

definition contexts_store :: CoverageData where
  "contexts_store =
     \<lparr> cd_no_disk = False,
       cd_store = Some contexts_db,
       cd_dbs = True,
       cd_file_map = [''a.py'' \<mapsto> 1],
       cd_have_used = True,
       cd_has_lines = True,
       cd_has_arcs = False,
       cd_current_context = Some ''test_one'',
       cd_current_context_id = Some 2,
       cd_query_context_ids = None \<rparr>"

lemma contexts_store_reached:
  "run literal_search (init False None)
     [Add_lines [(''a.py'', [1, 2, 5])], Set_context ''test_one'', Add_lines [(''a.py'', [2])]] =
   Inr contexts_store"
  by (simp add: model_defs contexts_store_def contexts_db_def)

lemma in_use_contexts_store: "in_use contexts_store contexts_db"
  by (simp add: in_use_def contexts_store_def)

lemma occurs_in_code:
  "occurs_in p s \<longleftrightarrow> list_ex (\<lambda>i. take (length p) (drop i s) = p) [0 ..< Suc (length s)]"
proof
  assume "occurs_in p s"
  then obtain u v where s: "s = u @ p @ v" by (auto simp: occurs_in_def)
  then have "length u \<in> set [0 ..< Suc (length s)]" "take (length p) (drop (length u) s) = p"
    by simp_all
  then show "list_ex (\<lambda>i. take (length p) (drop i s) = p) [0 ..< Suc (length s)]"
    unfolding list_ex_iff by blast
next
  assume "list_ex (\<lambda>i. take (length p) (drop i s) = p) [0 ..< Suc (length s)]"
  then obtain i where i: "take (length p) (drop i s) = p" by (auto simp: list_ex_iff)
  have "s = take i s @ take (length p) (drop i s) @ drop (length p) (drop i s)"
    by (simp only: append_take_drop_id)
  with i have "s = take i s @ p @ drop (length p) (drop i s)" by simp
  then show "occurs_in p s" unfolding occurs_in_def by blast
qed

lemma literal_search_occurs: "ordinary p \<Longrightarrow> literal_search p t = Some (occurs_in p t)"
  by (simp add: literal_search_def occurs_in_code)

lemma context_clause_total:
  "\<forall>p \<in> set patterns. re_search p c \<noteq> None \<Longrightarrow>
   context_clause re_search patterns c = Some (\<exists>p \<in> set patterns. re_search p c = Some True)"
  by (induction patterns) (auto simp: regexp_operator_def regexp_def)

lemma select_contexts_total:
  "\<forall>(i, c) \<in> set rows. \<forall>p \<in> set patterns. re_search p c \<noteq> None \<Longrightarrow>
   select_contexts re_search patterns rows found =
     Inr (map fst (filter (\<lambda>(i, c). \<exists>p \<in> set patterns. re_search p c = Some True) rows))"
proof (induction rows arbitrary: found)
  case Nil
  then show ?case by simp
next
  case (Cons r rows)
  obtain i c where r: "r = (i, c)" by (cases r)
  from Cons.prems r have c: "\<forall>p \<in> set patterns. re_search p c \<noteq> None"
    and rest: "\<forall>(i, c) \<in> set rows. \<forall>p \<in> set patterns. re_search p c \<noteq> None" by auto
  have cc: "context_clause re_search patterns c =
      Some (\<exists>p \<in> set patterns. re_search p c = Some True)"
    using c by (rule context_clause_total)
  have ih: "select_contexts re_search patterns rows found' =
     Inr (map fst (filter (\<lambda>(i, c). \<exists>p \<in> set patterns. re_search p c = Some True) rows))"
    for found'
    using rest by (rule Cons.IH)
  show ?case
    unfolding r by (simp add: cc ih)
qed

text \<open>
  Claim C3, as the code has it. \<^verbatim>\<open>_regexp\<close> hands its two arguments to
  \<^verbatim>\<open>re.search\<close> in the order it gets them, so \<^verbatim>\<open>REGEXP(a, b)\<close> is true exactly when
  the regular expression \<^verbatim>\<open>a\<close>, its first argument, matches somewhere inside the
  string \<^verbatim>\<open>b\<close>, its second argument, and it raises when \<^verbatim>\<open>a\<close> is no regular
  expression. The SQL operator \<^verbatim>\<open>context regexp ?\<close> of \<^verbatim>\<open>set_query_contexts\<close>
  calls it with the pattern first and the context second: when every pattern is a regular
  expression, the query selects the contexts in which one of the patterns matches
  somewhere; when the first pattern is not one, the call raises on a store that has a
  context. The hypothesis is what \<^verbatim>\<open>re.search\<close> does on a pattern of ordinary
  characters: it finds a match exactly when the pattern occurs in the string. With it, a
  pattern of ordinary characters selects the contexts in which it occurs.
\<close>

theorem regexp_argument_order:
  assumes "\<And>p t. ordinary p \<Longrightarrow> re_search p t = Some (occurs_in p t)"
  shows "regexp re_search a b = re_search a b \<and>
     (ordinary a \<longrightarrow> (regexp re_search a b = Some True \<longleftrightarrow> occurs_in a b)) \<and>
     (ordinary pattern \<longrightarrow>
        (regexp_operator re_search context pattern = Some True \<longleftrightarrow> occurs_in pattern context)) \<and>
     (in_use s db \<longrightarrow> contexts \<noteq> [] \<longrightarrow>
      (\<forall>(i, c) \<in> set (context_rows db). \<forall>p \<in> set contexts. re_search p c \<noteq> None) \<longrightarrow>
        set_query_contexts re_search s contexts =
          Inr (s \<lparr> cd_query_context_ids :=
                    Some (map fst (filter (\<lambda>(i, c). \<exists>p \<in> set contexts. re_search p c = Some True)
                                          (context_rows db))) \<rparr>)) \<and>
     (in_use s db \<longrightarrow> contexts \<noteq> [] \<longrightarrow> list_all ordinary contexts \<longrightarrow>
        set_query_contexts re_search s contexts =
          Inr (s \<lparr> cd_query_context_ids :=
                    Some (map fst (filter (\<lambda>(i, c). \<exists>p \<in> set contexts. occurs_in p c)
                                          (context_rows db))) \<rparr>)) \<and>
     (in_use s db \<longrightarrow> context_rows db = (i0, c0) # rows \<longrightarrow> re_search p0 c0 = None \<longrightarrow>
        set_query_contexts re_search s (p0 # ps) =
          Inl (CoverageException ''Couldn't use data file''))"
proof (intro conjI impI)
  show "regexp re_search a b = re_search a b"
    by (simp add: regexp_def)
  show "regexp re_search a b = Some True \<longleftrightarrow> occurs_in a b" if "ordinary a"
    using assms [OF that] by (simp add: regexp_def)
  show "regexp_operator re_search context pattern = Some True \<longleftrightarrow> occurs_in pattern context"
    if "ordinary pattern"
    using assms [OF that] by (simp add: regexp_operator_def regexp_def)
  show "set_query_contexts re_search s contexts =
          Inr (s \<lparr> cd_query_context_ids :=
                    Some (map fst (filter (\<lambda>(i, c). \<exists>p \<in> set contexts. re_search p c = Some True)
                                          (context_rows db))) \<rparr>)"
    if "in_use s db" "contexts \<noteq> []"
      "\<forall>(i, c) \<in> set (context_rows db). \<forall>p \<in> set contexts. re_search p c \<noteq> None"
  proof -
    have "select_contexts re_search contexts (context_rows db) False =
        Inr (map fst (filter (\<lambda>(i, c). \<exists>p \<in> set contexts. re_search p c = Some True)
                             (context_rows db)))"
      using that(3) by (rule select_contexts_total)
    with that(1,2) show ?thesis by (simp add: set_query_contexts_def Let_def)
  qed
  show "set_query_contexts re_search s contexts =
          Inr (s \<lparr> cd_query_context_ids :=
                    Some (map fst (filter (\<lambda>(i, c). \<exists>p \<in> set contexts. occurs_in p c)
                                          (context_rows db))) \<rparr>)"
    if u: "in_use s db" and ne: "contexts \<noteq> []" and o: "list_all ordinary contexts"
  proof -
    have re: "re_search p c = Some (occurs_in p c)" if "p \<in> set contexts" for p c
      using o that assms by (simp add: list_all_iff)
    then have t: "\<forall>(i, c) \<in> set (context_rows db). \<forall>p \<in> set contexts. re_search p c \<noteq> None"
      by simp
    have "filter (\<lambda>(i, c). \<exists>p \<in> set contexts. re_search p c = Some True) (context_rows db) =
          filter (\<lambda>(i, c). \<exists>p \<in> set contexts. occurs_in p c) (context_rows db)"
      by (rule filter_cong) (auto simp: re)
    moreover have "select_contexts re_search contexts (context_rows db) False =
        Inr (map fst (filter (\<lambda>(i, c). \<exists>p \<in> set contexts. re_search p c = Some True)
                             (context_rows db)))"
      using t by (rule select_contexts_total)
    ultimately show ?thesis
      using u ne by (simp add: set_query_contexts_def Let_def)
  qed
  show "set_query_contexts re_search s (p0 # ps) = Inl (CoverageException ''Couldn't use data file'')"
    if "in_use s db" "context_rows db = (i0, c0) # rows" "re_search p0 c0 = None"
    using that by (simp add: set_query_contexts_def Let_def regexp_operator_def regexp_def)
qed

theorem regexp_argument_order_witness:
  "in_use contexts_store contexts_db \<and> list_all ordinary [''one''] \<and>
   context_rows contexts_db = [(1, []), (2, ''test_one'')] \<and>
   (regexp literal_search ''one'' ''test_one'' = Some True \<and> occurs_in ''one'' ''test_one'') \<and>
   (regexp literal_search ''test_one'' ''one'' = Some False \<and> \<not> occurs_in ''test_one'' ''one'') \<and>
   set_query_contexts literal_search contexts_store [''one''] =
     Inr (contexts_store \<lparr> cd_query_context_ids := Some [2] \<rparr>) \<and>
   map fst (filter (\<lambda>(i, c). literal_search c ''one'' = Some True) (context_rows contexts_db)) = [1] \<and>
   literal_search ''('' [] = None \<and>
   set_query_contexts literal_search contexts_store [''('', ''one''] =
     Inl (CoverageException ''Couldn't use data file'')"
proof -
  have o: "ordinary ''one''" "ordinary ''test_one''" "list_all ordinary [''one'']"
    by (simp_all add: ordinary_def)
  have rows: "context_rows contexts_db = [(1, []), (2, ''test_one'')]"
    by (simp add: contexts_db_def)
  have occ: "occurs_in ''one'' ''test_one''" "\<not> occurs_in ''test_one'' ''one''"
    "\<not> occurs_in ''one'' []"
    unfolding occurs_in_code by code_simp+
  have sw: "map fst (filter (\<lambda>(i, c). literal_search c ''one'' = Some True)
                       (context_rows contexts_db)) = [1]"
    unfolding rows by code_simp
  have n: "literal_search ''('' [] = None"
    by (simp add: literal_search_def ordinary_def)
  note main = regexp_argument_order [of literal_search, OF literal_search_occurs]
  note m1 = main [of "''one''" "''test_one''" "''one''" "''one''" contexts_store contexts_db
      "[''one'']" 1 "[]" "[(2, ''test_one'')]" "''(''" "[''one'']"]
  note m2 = main [of "''test_one''" "''one''" "''one''" "''one''" contexts_store contexts_db
      "[''one'']" 1 "[]" "[(2, ''test_one'')]" "''(''" "[''one'']"]
  from m1 o occ have a: "regexp literal_search ''one'' ''test_one'' = Some True" by blast
  from m2 o(2) literal_search_occurs [OF o(2), of "''one''"] occ(2)
  have b: "regexp literal_search ''test_one'' ''one'' = Some False" by simp
  from m1 in_use_contexts_store o(3)
  have "set_query_contexts literal_search contexts_store [''one''] =
     Inr (contexts_store \<lparr> cd_query_context_ids :=
        Some (map fst (filter (\<lambda>(i, c). \<exists>p \<in> set [''one'']. occurs_in p c)
                              (context_rows contexts_db))) \<rparr>)"
    by blast
  then have c: "set_query_contexts literal_search contexts_store [''one''] =
     Inr (contexts_store \<lparr> cd_query_context_ids := Some [2] \<rparr>)"
    unfolding rows using occ by simp
  from m1 in_use_contexts_store rows n
  have d: "set_query_contexts literal_search contexts_store [''('', ''one''] =
     Inl (CoverageException ''Couldn't use data file'')"
    by blast
  from in_use_contexts_store o(3) rows a b c d sw n occ show ?thesis by blast
qed

text \<open>
  The claim as stated names the first argument the text and the second the pattern. The
  pattern \<^verbatim>\<open>b\<close>, of ordinary characters, occurs in the text \<^verbatim>\<open>abc\<close>, but
  \<^verbatim>\<open>_regexp("abc", "b")\<close> is \<^verbatim>\<open>re.search("abc", "b") is not None\<close>, which is
  false: the pattern \<^verbatim>\<open>abc\<close> does not occur in \<^verbatim>\<open>b\<close>.
\<close>

theorem regexp_argument_order_counterexample:
  "occurs_in ''b'' ''abc'' \<and> regexp literal_search ''abc'' ''b'' = Some False"
proof
  show "occurs_in ''b'' ''abc''"
    unfolding occurs_in_code by code_simp
  show "regexp literal_search ''abc'' ''b'' = Some False"
    by (simp add: regexp_def literal_search_def ordinary_def upt_rec)
qed

section \<open>Merging line data\<close>

lemma numbits_to_nums_iff:
  "n \<in> set (numbits_to_nums bs) \<longleftrightarrow> n div 8 < length bs \<and> bit (bs ! (n div 8)) (n mod 8)"
proof
  assume "n \<in> set (numbits_to_nums bs)"
  then obtain i b j where ib: "(i, b) \<in> set (enumerate 0 bs)" and j: "j < 8" "bit b j"
    and n: "n = i * 8 + j"
    by (auto simp: numbits_to_nums_def)
  from ib have "i < length bs" "bs ! i = b" by (auto simp: in_set_enumerate_eq)
  moreover from n j have "n div 8 = i" "n mod 8 = j" by auto
  ultimately show "n div 8 < length bs \<and> bit (bs ! (n div 8)) (n mod 8)" using j by simp
next
  assume a: "n div 8 < length bs \<and> bit (bs ! (n div 8)) (n mod 8)"
  then have "(n div 8, bs ! (n div 8)) \<in> set (enumerate 0 bs)"
    by (simp add: in_set_enumerate_eq)
  moreover have "n mod 8 < 8" by simp
  moreover have "n = (n div 8) * 8 + n mod 8" by simp
  ultimately show "n \<in> set (numbits_to_nums bs)"
    using a unfolding numbits_to_nums_def
    by (auto simp: image_iff intro!: bexI [where x = "(n div 8, bs ! (n div 8))"]
        exI [where x = "n mod 8"])
qed

lemma length_numbits_union: "length (numbits_union a b) = max (length a) (length b)"
  by (induction a b rule: numbits_union.induct) auto

lemma nth_numbits_union:
  "k < max (length a) (length b) \<Longrightarrow>
   numbits_union a b ! k =
     (if k < length a then a ! k else 0) OR (if k < length b then b ! k else 0)"
proof (induction a b arbitrary: k rule: numbits_union.induct)
  case 1
  then show ?case by simp
next
  case (2 b1 n1)
  then show ?case by (cases k) auto
next
  case (3 b2 n2)
  then show ?case by (cases k) auto
next
  case (4 b1 n1 b2 n2)
  then show ?case by (cases k) auto
qed

lemma numbits_union_set:
  "set (numbits_to_nums (numbits_union a b)) = set (numbits_to_nums a) \<union> set (numbits_to_nums b)"
proof (rule set_eqI)
  fix n
  show "n \<in> set (numbits_to_nums (numbits_union a b)) \<longleftrightarrow>
        n \<in> set (numbits_to_nums a) \<union> set (numbits_to_nums b)"
    unfolding Un_iff numbits_to_nums_iff length_numbits_union
    by (cases "n div 8 < max (length a) (length b)")
      (auto simp: nth_numbits_union bit_or_iff)
qed

text \<open>
  \<open>recorded db f c\<close> is the set of the line numbers that the database holds for the
  file path \<open>f\<close> and the context \<open>c\<close>: the numbers of the numbits of the
  \<^verbatim>\<open>line_bits\<close> rows, joined with the file and the context table as \<^verbatim>\<open>update\<close>
  joins them. \<open>references_ok\<close> says that the rows of \<^verbatim>\<open>line_bits\<close> refer to rows
  of the file and the context table that exist, the foreign keys of the schema: SQLite
  does not enforce them, and the code only writes rows with the ids of rows it has made.
  \<open>dict_lines d f c\<close> is the set of the line numbers that a dictionary of numbits has
  for the key \<open>(f, c)\<close>.
\<close>

definition recorded :: "database \<Rightarrow> string \<Rightarrow> string \<Rightarrow> nat set" where
  "recorded db f c =
     set (concat (map (\<lambda>(path, context, numbits). numbits_to_nums numbits)
            (filter (\<lambda>(path, context, numbits). path = f \<and> context = c)
                    (join_file_context db (line_bits_rows db)))))"

definition references_ok :: "database \<Rightarrow> bool" where
  "references_ok db \<longleftrightarrow>
     (\<forall>(f, c, n) \<in> set (line_bits_rows db).
        f \<in> fst ` set (file_rows db) \<and> c \<in> fst ` set (context_rows db))"

definition dict_lines :: "((string \<times> string) \<times> numbits) list \<Rightarrow> string \<Rightarrow> string \<Rightarrow> nat set" where
  "dict_lines d f c = (case map_of d (f, c) of None \<Rightarrow> {} | Some n \<Rightarrow> set (numbits_to_nums n))"

lemma set_join_file_context:
  "set (join_file_context db rows) =
     {(path, context, x). \<exists>f c. (f, c, x) \<in> set rows \<and> (f, path) \<in> set (file_rows db) \<and>
        (c, context) \<in> set (context_rows db)}"
  unfolding join_file_context_def by (auto simp: image_iff)

lemma recorded_iff:
  "n \<in> recorded db f c \<longleftrightarrow>
     (\<exists>fid cid nb. (fid, cid, nb) \<in> set (line_bits_rows db) \<and> (fid, f) \<in> set (file_rows db) \<and>
        (cid, c) \<in> set (context_rows db) \<and> n \<in> set (numbits_to_nums nb))"
  unfolding recorded_def by (auto simp: set_join_file_context) 

lemma dict_lines_merge_row:
  "dict_lines (merge_line_row (\<lambda>path. path) (p, c, nb) d) f' c' =
     dict_lines d f' c' \<union> (if (f', c') = (p, c) then set (numbits_to_nums nb) else {})"
  by (auto simp: dict_lines_def merge_line_row_def update_conv' numbits_union_set
      split: option.splits)

lemma dict_lines_merge_fold:
  "dict_lines (fold (merge_line_row (\<lambda>path. path)) rows d) f c =
     dict_lines d f c \<union> (\<Union>nb \<in> {nb. (f, c, nb) \<in> set rows}. set (numbits_to_nums nb))"
proof (induction rows arbitrary: d)
  case Nil
  then show ?case by simp
next
  case (Cons r rows)
  obtain p c' nb where r: "r = (p, c', nb)" by (cases r)
  show ?case unfolding r by (simp add: Cons.IH dict_lines_merge_row) blast
qed

lemma distinct_key_unique:
  "distinct (map (\<lambda>(f, c, n). (f, c)) rows) \<Longrightarrow> (f, c, n) \<in> set rows \<Longrightarrow> (f, c, n') \<in> set rows \<Longrightarrow> n = n'"
  by (induction rows) (auto simp: image_iff)

lemma functional_join_lines:
  assumes "unique_rows db"
  shows "functional (set (map (\<lambda>(path, context, numbits). ((path, context), numbits))
           (join_file_context db (line_bits_rows db))))"
proof -
  have "n = n'" if "(f, c, n) \<in> set (line_bits_rows db)" "(f', c', n') \<in> set (line_bits_rows db)"
    "(f, p) \<in> set (file_rows db)" "(f', p) \<in> set (file_rows db)"
    "(c, x) \<in> set (context_rows db)" "(c', x) \<in> set (context_rows db)" for f f' c c' n n' p x
  proof -
    have "f = f'" using assms that(3,4) by (auto simp: unique_rows_def dest: distinct_snd_unique)
    moreover have "c = c'" using assms that(5,6) by (auto simp: unique_rows_def dest: distinct_snd_unique)
    ultimately show ?thesis using assms that(1,2) by (auto simp: unique_rows_def dest: distinct_key_unique)
  qed
  then show ?thesis
    unfolding functional_def by (auto simp: set_join_file_context) 
qed

lemma map_of_other_lines:
  assumes "unique_rows odb"
  shows "map_of (other_lines (\<lambda>path. path) odb) (f, c) = Some nb \<longleftrightarrow>
         (f, c, nb) \<in> set (join_file_context odb (line_bits_rows odb))"
proof -
  let ?items = "map (\<lambda>(path, context, numbits). ((path, context), numbits))
           (join_file_context odb (line_bits_rows odb))"
  have "map_of (other_lines (\<lambda>path. path) odb) (f, c) = Some nb \<longleftrightarrow> ((f, c), nb) \<in> set ?items"
    unfolding other_lines_def map_of_dict_of
    by (rule map_of_rev_functional [OF functional_join_lines [OF assms]])
  also have "\<dots> \<longleftrightarrow> (f, c, nb) \<in> set (join_file_context odb (line_bits_rows odb))"
    by (auto simp: image_iff) force
  finally show ?thesis .
qed

lemma recorded_join:
  "n \<in> recorded db f c \<longleftrightarrow>
     (\<exists>nb. (f, c, nb) \<in> set (join_file_context db (line_bits_rows db)) \<and> n \<in> set (numbits_to_nums nb))"
  unfolding recorded_def by auto

lemma dict_lines_other:
  assumes "unique_rows odb"
  shows "dict_lines (other_lines (\<lambda>path. path) odb) f c = recorded odb f c"
proof (rule set_eqI)
  fix n
  note m = map_of_other_lines [OF assms, of f c]
  show "n \<in> dict_lines (other_lines (\<lambda>path. path) odb) f c \<longleftrightarrow> n \<in> recorded odb f c"
  proof (cases "map_of (other_lines (\<lambda>path. path) odb) (f, c)")
    case None
    then have "\<And>nb. (f, c, nb) \<notin> set (join_file_context odb (line_bits_rows odb))"
      using m by simp
    with None show ?thesis unfolding recorded_join by (simp add: dict_lines_def)
  next
    case (Some a)
    have "(f, c, nb) \<in> set (join_file_context odb (line_bits_rows odb)) \<longleftrightarrow> nb = a" for nb
      unfolding m [symmetric] Some by auto
    with Some show ?thesis unfolding recorded_join by (simp add: dict_lines_def)
  qed
qed

lemma new_rowid_fresh: "new_rowid rows \<notin> fst ` set rows"
proof
  assume a: "new_rowid rows \<in> fst ` set rows"
  then have ne: "rows \<noteq> []" by auto
  from a have "new_rowid rows \<le> Max (set (map fst rows))" by (simp add: Max_ge)
  with ne show False by (simp add: new_rowid_def)
qed

lemma insert_or_ignore_props:
  assumes "distinct (map fst rows)" "distinct (map snd rows)"
  shows "distinct (map fst (insert_or_ignore v rows)) \<and>
         distinct (map snd (insert_or_ignore v rows)) \<and>
         set rows \<subseteq> set (insert_or_ignore v rows) \<and>
         snd ` set (insert_or_ignore v rows) = insert v (snd ` set rows)"
  using assms new_rowid_fresh [of rows] by (auto simp: insert_or_ignore_def)

lemma fold_insert_or_ignore:
  assumes "distinct (map fst rows)" "distinct (map snd rows)"
  shows "distinct (map fst (fold insert_or_ignore vs rows)) \<and>
         distinct (map snd (fold insert_or_ignore vs rows)) \<and>
         set rows \<subseteq> set (fold insert_or_ignore vs rows) \<and>
         snd ` set (fold insert_or_ignore vs rows) = set vs \<union> snd ` set rows"
  using assms
proof (induction vs arbitrary: rows)
  case Nil
  then show ?case by simp
next
  case (Cons v vs)
  note p = insert_or_ignore_props [OF Cons.prems, of v]
  from p have d: "distinct (map fst (insert_or_ignore v rows))"
    "distinct (map snd (insert_or_ignore v rows))" by blast+
  from Cons.IH [OF d] p show ?case by auto
qed

lemma unique_rows_insert:
  assumes "unique_rows db"
  shows "unique_rows (insert_files_contexts fv cs db)"
  using assms fold_insert_or_ignore [of "file_rows db" fv] fold_insert_or_ignore [of "context_rows db" cs]
  by (simp add: unique_rows_def insert_files_contexts_def)

lemma insert_files_contexts_simps [simp]:
  "line_bits_rows (insert_files_contexts fv cs db) = line_bits_rows db"
  "meta_rows (insert_files_contexts fv cs db) = meta_rows db"
  "tracer_rows (insert_files_contexts fv cs db) = tracer_rows db"
  "arc_rows (insert_files_contexts fv cs db) = arc_rows db"
  "coverage_schema (insert_files_contexts fv cs db) = coverage_schema db"
  by (simp_all add: insert_files_contexts_def)

lemma insert_files_contexts_rows:
  assumes "unique_rows db"
  shows "set (file_rows db) \<subseteq> set (file_rows (insert_files_contexts fv cs db))"
    "set (context_rows db) \<subseteq> set (context_rows (insert_files_contexts fv cs db))"
    "snd ` set (file_rows (insert_files_contexts fv cs db)) = set fv \<union> snd ` set (file_rows db)"
    "snd ` set (context_rows (insert_files_contexts fv cs db)) = set cs \<union> snd ` set (context_rows db)"
  using assms fold_insert_or_ignore [of "file_rows db" fv] fold_insert_or_ignore [of "context_rows db" cs]
  by (simp_all add: unique_rows_def insert_files_contexts_def)

lemma join_insert:
  assumes "unique_rows db" "references_ok db"
  shows "set (join_file_context (insert_files_contexts fv cs db) (line_bits_rows db)) =
         set (join_file_context db (line_bits_rows db))"
proof -
  let ?db2 = "insert_files_contexts fv cs db"
  note u2 = unique_rows_insert [OF assms(1), of fv cs]
  note sub = insert_files_contexts_rows(1,2) [OF assms(1), of fv cs]
  have f: "(i, p) \<in> set (file_rows ?db2) \<longleftrightarrow> (i, p) \<in> set (file_rows db)"
    if "(i, c, x) \<in> set (line_bits_rows db)" for i c x p
  proof
    assume a: "(i, p) \<in> set (file_rows ?db2)"
    from that assms(2) obtain q where q: "(i, q) \<in> set (file_rows db)"
      by (auto simp: references_ok_def)
    with sub have "(i, q) \<in> set (file_rows ?db2)" by auto
    with a u2 have "p = q" by (auto simp: unique_rows_def dest: distinct_fst_unique)
    with q show "(i, p) \<in> set (file_rows db)" by simp
  next
    assume "(i, p) \<in> set (file_rows db)"
    with sub show "(i, p) \<in> set (file_rows ?db2)" by auto
  qed
  have c: "(j, p) \<in> set (context_rows ?db2) \<longleftrightarrow> (j, p) \<in> set (context_rows db)"
    if "(i, j, x) \<in> set (line_bits_rows db)" for i j x p
  proof
    assume a: "(j, p) \<in> set (context_rows ?db2)"
    from that assms(2) obtain q where q: "(j, q) \<in> set (context_rows db)"
      by (auto simp: references_ok_def)
    with sub have "(j, q) \<in> set (context_rows ?db2)" by auto
    with a u2 have "p = q" by (auto simp: unique_rows_def dest: distinct_fst_unique)
    with q show "(j, p) \<in> set (context_rows db)" by simp
  next
    assume "(j, p) \<in> set (context_rows db)"
    with sub show "(j, p) \<in> set (context_rows ?db2)" by auto
  qed
  show ?thesis
    unfolding set_join_file_context using f c by blast
qed

lemma recorded_insert:
  assumes "unique_rows db" "references_ok db"
  shows "recorded (insert_files_contexts fv cs db) f c = recorded db f c"
  by (rule set_eqI) (simp add: recorded_join join_insert [OF assms])

lemma dict_lines_merged:
  "dict_lines (merged_lines (\<lambda>path. path) db ld) f c = dict_lines ld f c \<union> recorded db f c"
proof -
  have "recorded db f c =
        (\<Union>nb \<in> {nb. (f, c, nb) \<in> set (join_file_context db (line_bits_rows db))}. set (numbits_to_nums nb))"
    by (rule set_eqI) (auto simp: recorded_join)
  then show ?thesis by (simp add: merged_lines_def dict_lines_merge_fold)
qed

lemma distinct_fold_update:
  "distinct (map fst d) \<Longrightarrow> distinct (map fst (fold (\<lambda>(k, v). AList.update k v) items d))"
  by (induction items arbitrary: d) (auto simp: distinct_update)

lemma distinct_dict_of: "distinct (map fst (dict_of items))"
  by (simp add: dict_of_def distinct_fold_update)

lemma distinct_merged_lines:
  "distinct (map fst ld) \<Longrightarrow> distinct (map fst (merged_lines a db ld))"
proof -
  have "distinct (map fst d) \<Longrightarrow> distinct (map fst (fold (merge_line_row a) rows d))" for rows d
    by (induction rows arbitrary: d) (auto simp: merge_line_row_def distinct_update Let_def)
  then show "distinct (map fst ld) \<Longrightarrow> distinct (map fst (merged_lines a db ld))"
    by (simp add: merged_lines_def)
qed

lemma map_res_set: "map_res g xs = Inr ys \<Longrightarrow> set ys = {y. \<exists>x \<in> set xs. g x = Inr y}"
proof (induction xs arbitrary: ys)
  case Nil
  then show ?case by simp
next
  case (Cons x xs)
  from Cons.prems obtain y ys' where y: "g x = Inr y" and r: "map_res g xs = Inr ys'"
    and ys: "ys = y # ys'"
    by (auto simp: then_res_Inr)
  from Cons.IH [OF r] show ?case unfolding ys using y by auto
qed

lemma map_of_file_ids:
  assumes "unique_rows db"
  shows "map_of (file_ids_of db) p = Some i \<longleftrightarrow> (i, p) \<in> set (file_rows db)"
    "map_of (context_ids_of db) c = Some j \<longleftrightarrow> (j, c) \<in> set (context_rows db)"
proof -
  have d: "distinct (map fst (map (\<lambda>(i, p). (p, i)) rows))" if "distinct (map snd rows)"
    for rows :: "(nat \<times> string) list"
    using that by (simp add: comp_def case_prod_beta)
  have m: "map_of (rev (map (\<lambda>(i, p). (p, i)) rows)) p = Some i \<longleftrightarrow> (i, p) \<in> set rows"
    if "distinct (map snd rows)" for rows :: "(nat \<times> string) list" and p i
    using map_of_rev_functional [OF functional_distinct [OF d [OF that]], of p i]
    by (auto simp: image_iff) force
  show "map_of (file_ids_of db) p = Some i \<longleftrightarrow> (i, p) \<in> set (file_rows db)"
    unfolding file_ids_of_def map_of_dict_of using assms by (intro m) (simp add: unique_rows_def)
  show "map_of (context_ids_of db) c = Some j \<longleftrightarrow> (j, c) \<in> set (context_rows db)"
    unfolding context_ids_of_def map_of_dict_of using assms by (intro m) (simp add: unique_rows_def)
qed

lemma map_res_all: "map_res g xs = Inr ys \<Longrightarrow> x \<in> set xs \<Longrightarrow> \<exists>y. g x = Inr y"
  by (induction xs arbitrary: ys) (auto simp: then_res_Inr)

lemma subscript_Inr: "subscript d k = Inr v \<longleftrightarrow> map_of d k = Some v"
  by (simp add: subscript_def split: option.splits)

lemma line_row_Inr:
  "(case x of ((file, context), numbits) \<Rightarrow>
      then_res (subscript fids file) (\<lambda>f.
      then_res (subscript cids context) (\<lambda>c. Inr (f, c, numbits)))) = Inr (i, j, nb) \<longleftrightarrow>
   (\<exists>f c. x = ((f, c), nb) \<and> map_of fids f = Some i \<and> map_of cids c = Some j)"
  by (auto simp: then_res_Inr subscript_def split: prod.splits option.splits)

lemma write_lines_rows:
  assumes u: "unique_rows db" and d: "distinct (map fst ld)"
    and m: "map_res (\<lambda>((file, context), numbits).
                   then_res (subscript (file_ids_of db) file) (\<lambda>f.
                   then_res (subscript (context_ids_of db) context) (\<lambda>c.
                     Inr (f, c, numbits)))) ld = Inr rows"
  shows "recorded (db \<lparr> line_bits_rows := rows \<rparr>) f c = dict_lines ld f c"
    and "references_ok (db \<lparr> line_bits_rows := rows \<rparr>)"
proof -
  let ?g = "\<lambda>((file, context), numbits).
                   then_res (subscript (file_ids_of db) file) (\<lambda>f.
                   then_res (subscript (context_ids_of db) context) (\<lambda>c.
                     Inr (f, c, numbits)))"
  have g: "?g x = Inr (i, j, nb) \<longleftrightarrow>
      (\<exists>f c. x = ((f, c), nb) \<and> (i, f) \<in> set (file_rows db) \<and> (j, c) \<in> set (context_rows db))"
    for x i j nb
  proof -
    obtain f c n where x: "x = ((f, c), n)" by (metis surj_pair)
    show ?thesis
      unfolding x by (auto simp: then_res_Inr subscript_Inr map_of_file_ids [OF u])
  qed
  have "set rows = {y. \<exists>x \<in> set ld. ?g x = Inr y}" by (rule map_res_set [OF m])
  then have "(i, j, nb) \<in> set rows \<longleftrightarrow> (\<exists>x \<in> set ld. ?g x = Inr (i, j, nb))" for i j nb
    by simp
  then have rows: "(i, j, nb) \<in> set rows \<longleftrightarrow>
      (\<exists>f c. ((f, c), nb) \<in> set ld \<and> (i, f) \<in> set (file_rows db) \<and> (j, c) \<in> set (context_rows db))"
    for i j nb
    unfolding g by auto
  have ex: "\<exists>i j. (i, f) \<in> set (file_rows db) \<and> (j, c) \<in> set (context_rows db)"
    if "((f, c), nb) \<in> set ld" for f c nb
  proof -
    from map_res_all [OF m that] obtain y where "?g ((f, c), nb) = Inr y" by blast
    then show ?thesis
      using g [of "((f, c), nb)" "fst y" "fst (snd y)" "snd (snd y)"] by auto
  qed
  have uf: "p = q" if "(i, p) \<in> set (file_rows db)" "(i, q) \<in> set (file_rows db)" for i p q
    using u that by (auto simp: unique_rows_def dest: distinct_fst_unique)
  have uc: "p = q" if "(i, p) \<in> set (context_rows db)" "(i, q) \<in> set (context_rows db)" for i p q
    using u that by (auto simp: unique_rows_def dest: distinct_fst_unique)
  have ml: "map_of ld k = Some nb \<longleftrightarrow> (k, nb) \<in> set ld" for k nb
    using d by simp
  show "recorded (db \<lparr> line_bits_rows := rows \<rparr>) f c = dict_lines ld f c"
  proof (rule set_eqI)
    fix n
    have "n \<in> recorded (db \<lparr> line_bits_rows := rows \<rparr>) f c \<longleftrightarrow>
          (\<exists>nb. ((f, c), nb) \<in> set ld \<and> n \<in> set (numbits_to_nums nb))"
    proof
      assume "n \<in> recorded (db \<lparr> line_bits_rows := rows \<rparr>) f c"
      then obtain i j nb where r: "(i, j, nb) \<in> set rows" and f: "(i, f) \<in> set (file_rows db)"
        and c: "(j, c) \<in> set (context_rows db)" and n: "n \<in> set (numbits_to_nums nb)"
        unfolding recorded_iff by auto
      from r obtain f' c' where l: "((f', c'), nb) \<in> set ld" and f': "(i, f') \<in> set (file_rows db)"
        and c': "(j, c') \<in> set (context_rows db)"
        unfolding rows by blast
      from uf [OF f f'] uc [OF c c'] l n
      show "\<exists>nb. ((f, c), nb) \<in> set ld \<and> n \<in> set (numbits_to_nums nb)" by blast
    next
      assume "\<exists>nb. ((f, c), nb) \<in> set ld \<and> n \<in> set (numbits_to_nums nb)"
      then obtain nb where l: "((f, c), nb) \<in> set ld" and n: "n \<in> set (numbits_to_nums nb)"
        by blast
      from ex [OF l] obtain i j where f: "(i, f) \<in> set (file_rows db)"
        and c: "(j, c) \<in> set (context_rows db)" by blast
      with l have "(i, j, nb) \<in> set rows" unfolding rows by blast
      with f c n show "n \<in> recorded (db \<lparr> line_bits_rows := rows \<rparr>) f c"
        unfolding recorded_iff by auto
    qed
    also have "\<dots> \<longleftrightarrow> n \<in> dict_lines ld f c"
    proof (cases "map_of ld (f, c)")
      case None
      then have "\<And>nb. ((f, c), nb) \<notin> set ld" unfolding ml [symmetric] by simp
      with None show ?thesis by (simp add: dict_lines_def)
    next
      case (Some a)
      have "((f, c), nb) \<in> set ld \<longleftrightarrow> nb = a" for nb
        unfolding ml [symmetric] Some by auto
      with Some show ?thesis by (simp add: dict_lines_def)
    qed
    finally show "n \<in> recorded (db \<lparr> line_bits_rows := rows \<rparr>) f c \<longleftrightarrow> n \<in> dict_lines ld f c" .
  qed
  show "references_ok (db \<lparr> line_bits_rows := rows \<rparr>)"
    unfolding references_ok_def using rows by (auto simp: image_iff) force+
qed

lemma write_lines_in_use:
  assumes "in_use s db" "cd_has_lines s" "\<not> cd_has_arcs s"
    and "write_lines fids cids ld s = Inr s'"
  shows "\<exists>rows. map_res (\<lambda>((file, context), numbits).
                   then_res (subscript fids file) (\<lambda>f.
                   then_res (subscript cids context) (\<lambda>c.
                     Inr (f, c, numbits)))) ld = Inr rows \<and>
           distinct (map (\<lambda>(f, c, n). (f, c)) rows) \<and>
           s' = s \<lparr> cd_store := Some (db \<lparr> line_bits_rows := rows \<rparr>) \<rparr>"
proof -
  have ch: "choose_lines_or_arcs s True False = Inr s"
    using assms(2,3) by (simp add: choose_lines_or_arcs_def)
  show ?thesis
    using assms(4) unfolding write_lines_def ch then_res_simps in_use_connect [OF assms(1)] prod.case
    by (auto simp: then_res_Inr split: if_splits)
qed

lemma write_arcs_lines_mode:
  assumes "cd_has_lines s"
  shows "write_arcs fids cids al s \<noteq> Inr s'"
  using assms by (simp add: write_arcs_def choose_lines_or_arcs_def)

lemma write_tracers_in_use:
  assumes "in_use s db" and "write_tracers fids tm s = Inr s'"
  shows "\<exists>rows. s' = s \<lparr> cd_store := Some (db \<lparr> tracer_rows := fold ignore_tracer rows (tracer_rows db) \<rparr>) \<rparr>"
  using assms(2) unfolding write_tracers_def in_use_connect [OF assms(1)] then_res_simps prod.case
  by (auto simp: then_res_Inr)

lemma distinct_fold_ignore_tracer:
  "distinct (map fst rows) \<Longrightarrow> distinct (map fst (fold ignore_tracer new rows))"
  by (induction new arbitrary: rows) (auto simp: ignore_tracer_def)

lemma recorded_cong:
  "file_rows db' = file_rows db \<Longrightarrow> context_rows db' = context_rows db \<Longrightarrow>
   line_bits_rows db' = line_bits_rows db \<Longrightarrow> recorded db' f c = recorded db f c"
  by (rule set_eqI) (simp add: recorded_iff)

lemma references_ok_insert:
  assumes "unique_rows db" "references_ok db"
  shows "references_ok (insert_files_contexts fv cs db)"
proof -
  note sub = insert_files_contexts_rows(1,2) [OF assms(1), of fv cs]
  have "fst ` set (file_rows db) \<subseteq> fst ` set (file_rows (insert_files_contexts fv cs db))"
    "fst ` set (context_rows db) \<subseteq> fst ` set (context_rows (insert_files_contexts fv cs db))"
    using sub by blast+
  with assms(2) show ?thesis unfolding references_ok_def by auto
qed

lemma update_write_rows_lines:
  assumes iu: "in_use s db" and hl: "cd_has_lines s" and ha: "\<not> cd_has_arcs s"
    and u: "unique_rows db" and r: "references_ok db" and d: "distinct (map fst ld)"
    and w: "update_write_rows (file_ids_of db) (context_ids_of db) al ld tm s = Inr s'"
  shows "\<exists>db'. s' = s \<lparr> cd_store := Some db' \<rparr> \<and> unique_rows db' \<and> references_ok db' \<and>
           file_rows db' = file_rows db \<and> context_rows db' = context_rows db \<and>
           meta_rows db' = meta_rows db \<and> coverage_schema db' = coverage_schema db \<and>
           (\<forall>f c. recorded db' f c = (if ld = [] then recorded db f c else dict_lines ld f c))"
proof -
  from w obtain s1 s2 where
    a: "(if al \<noteq> [] then write_arcs (file_ids_of db) (context_ids_of db) al s else Inr s) = Inr s1"
    and l: "(if ld \<noteq> [] then write_lines (file_ids_of db) (context_ids_of db) ld s1 else Inr s1) = Inr s2"
    and t: "write_tracers (file_ids_of db) tm s2 = Inr s'"
    unfolding update_write_rows_def by (elim then_resE) blast
  from a have s1: "s1 = s"
    using write_arcs_lines_mode [OF hl] by (auto split: if_splits)
  have "\<exists>db2. s2 = s \<lparr> cd_store := Some db2 \<rparr> \<and> unique_rows db2 \<and> references_ok db2 \<and>
           file_rows db2 = file_rows db \<and> context_rows db2 = context_rows db \<and>
           meta_rows db2 = meta_rows db \<and> coverage_schema db2 = coverage_schema db \<and>
           tracer_rows db2 = tracer_rows db \<and>
           (\<forall>f c. recorded db2 f c = (if ld = [] then recorded db f c else dict_lines ld f c))"
  proof (cases "ld = []")
    case True
    with l s1 have "s2 = s" by simp
    moreover have "s = s \<lparr> cd_store := Some db \<rparr>" using iu by (simp add: in_use_def)
    ultimately have "s2 = s \<lparr> cd_store := Some db \<rparr>" by simp
    with True u r show ?thesis by (intro exI [where x = db]) simp
  next
    case False
    with l s1 have wl: "write_lines (file_ids_of db) (context_ids_of db) ld s = Inr s2" by simp
    from write_lines_in_use [OF iu hl ha wl] obtain rows where
      m: "map_res (\<lambda>((file, context), numbits).
                   then_res (subscript (file_ids_of db) file) (\<lambda>f.
                   then_res (subscript (context_ids_of db) context) (\<lambda>c.
                     Inr (f, c, numbits)))) ld = Inr rows"
      and dr: "distinct (map (\<lambda>(f, c, n). (f, c)) rows)"
      and s2: "s2 = s \<lparr> cd_store := Some (db \<lparr> line_bits_rows := rows \<rparr>) \<rparr>"
      by blast
    have "unique_rows (db \<lparr> line_bits_rows := rows \<rparr>)"
      using u dr by (simp add: unique_rows_def)
    with write_lines_rows [OF u d m] s2 False show ?thesis
      by (intro exI [where x = "db \<lparr> line_bits_rows := rows \<rparr>"]) simp
  qed
  then obtain db2 where s2: "s2 = s \<lparr> cd_store := Some db2 \<rparr>" and u2: "unique_rows db2"
    and r2: "references_ok db2" and f2: "file_rows db2 = file_rows db"
    and c2: "context_rows db2 = context_rows db" and m2: "meta_rows db2 = meta_rows db"
    and v2: "coverage_schema db2 = coverage_schema db"
    and rec2: "\<forall>f c. recorded db2 f c = (if ld = [] then recorded db f c else dict_lines ld f c)"
    by blast
  have iu2: "in_use s2 db2" using iu unfolding s2 by (simp add: in_use_def)
  from write_tracers_in_use [OF iu2 t] obtain rows where
    s': "s' = s2 \<lparr> cd_store := Some (db2 \<lparr> tracer_rows := fold ignore_tracer rows (tracer_rows db2) \<rparr>) \<rparr>"
    by blast
  let ?db' = "db2 \<lparr> tracer_rows := fold ignore_tracer rows (tracer_rows db2) \<rparr>"
  have "s' = s \<lparr> cd_store := Some ?db' \<rparr>" unfolding s' s2 by simp
  moreover have "unique_rows ?db'"
    using u2 distinct_fold_ignore_tracer [of "tracer_rows db2" rows] by (simp add: unique_rows_def)
  moreover have "references_ok ?db'" using r2 by (simp add: references_ok_def)
  moreover have "\<forall>f c. recorded ?db' f c = (if ld = [] then recorded db f c else dict_lines ld f c)"
    using rec2 recorded_cong [of ?db' db2] by simp
  ultimately show ?thesis using f2 c2 m2 v2
    by (intro exI [where x = ?db']) simp
qed

lemma fold_file_map_add:
  "fold (\<lambda>(file_id, path) m. m(path \<mapsto> file_id)) rows m0 =
   m0 ++ map_of (rev (map (\<lambda>(i, p). (p, i)) rows))"
proof (induction rows arbitrary: m0)
  case Nil
  then show ?case by simp
next
  case (Cons r rows)
  obtain i p where r: "r = (i, p)" by (cases r)
  have "fold (\<lambda>(file_id, path) m. m(path \<mapsto> file_id)) (r # rows) m0 =
        fold (\<lambda>(file_id, path) m. m(path \<mapsto> file_id)) rows (m0(p \<mapsto> i))"
    by (simp only: r fold_simps prod.case)
  also have "\<dots> = m0(p \<mapsto> i) ++ map_of (rev (map (\<lambda>(i, p). (p, i)) rows))"
    by (rule Cons.IH)
  also have "\<dots> = m0 ++ map_of (rev (map (\<lambda>(i, p). (p, i)) (r # rows)))"
    by (rule ext) (simp add: r map_add_def split: option.splits)
  finally show ?case .
qed

lemma file_map_rows:
  assumes "distinct (map snd rows)"
  shows "fold (\<lambda>(file_id, path) m. m(path \<mapsto> file_id)) rows Map.empty p = Some i \<longleftrightarrow>
         (i, p) \<in> set rows"
proof -
  have d: "distinct (map fst (map (\<lambda>(i, p). (p, i)) rows))"
    using assms by (simp add: comp_def case_prod_beta)
  have "map_of (rev (map (\<lambda>(i, p). (p, i)) rows)) p = Some i \<longleftrightarrow>
        (p, i) \<in> set (map (\<lambda>(i, p). (p, i)) rows)"
    by (rule map_of_rev_functional [OF functional_distinct [OF d]])
  also have "\<dots> \<longleftrightarrow> (i, p) \<in> set rows" by (auto simp: image_iff) force
  finally show ?thesis by (simp add: fold_file_map_add)
qed

lemma read_reset:
  assumes "in_use s db" "\<not> cd_no_disk s" "read (reset s) = Inr s'"
  shows "in_use s' db \<and> \<not> cd_no_disk s' \<and>
         cd_file_map s' = fold (\<lambda>(file_id, path) m. m(path \<mapsto> file_id)) (file_rows db) Map.empty"
proof -
  from assms(3) obtain s1 db1 where c: "connect (reset s) = Inr (s1, db1)"
    and s': "s' = s1 \<lparr> cd_have_used := True \<rparr>"
    by (auto simp: read_def elim!: then_resE)
  have st: "cd_store (reset s) = Some db" "\<not> cd_dbs (reset s)" "cd_file_map (reset s) = Map.empty"
    "\<not> cd_no_disk (reset s)"
    using assms(1,2) by (simp_all add: reset_def in_use_def)
  from c st have rd: "read_db ((reset s) \<lparr> cd_dbs := True \<rparr>) = Inr s1" and db1: "cd_store s1 = Some db1"
    by (auto simp: connect_def open_db_def then_res_Inr split: option.splits)
  from read_db_Inr [OF rd] st db1 have "db1 = db" "cd_dbs s1" "\<not> cd_no_disk s1"
    "cd_file_map s1 = fold (\<lambda>(file_id, path) m. m(path \<mapsto> file_id)) (file_rows db) Map.empty"
    by auto
  with db1 show ?thesis unfolding s' by (simp add: in_use_def)
qed

lemma lines_query:
  assumes iu: "in_use s db" and ha: "\<not> cd_has_arcs s" and u: "unique_rows db"
    and fm: "\<And>p i. cd_file_map s p = Some i \<longleftrightarrow> (i, p) \<in> set (file_rows db)"
  shows "\<exists>s1. set_query_context s c = Inr s1 \<and>
           lines s1 f = Inr (s1, if f \<in> snd ` set (file_rows db)
                                 then Some (int ` recorded db f c) else None)"
proof -
  let ?ids = "map fst (filter (\<lambda>(i, c'). c' = c) (context_rows db))"
  let ?s1 = "s \<lparr> cd_query_context_ids := Some ?ids \<rparr>"
  have q: "set_query_context s c = Inr ?s1"
    using iu by (simp add: set_query_context_def)
  have iu1: "in_use ?s1 db" using iu by (simp add: in_use_def)
  have ids: "j \<in> set ?ids \<longleftrightarrow> (j, c) \<in> set (context_rows db)" for j
    by (auto simp: image_iff)
  have l: "lines ?s1 f = Inr (?s1, if f \<in> snd ` set (file_rows db)
                                 then Some (int ` recorded db f c) else None)"
  proof (cases "cd_file_map s f")
    case None
    then have "f \<notin> snd ` set (file_rows db)" using fm [of f] by (auto simp: image_iff)
    with None iu1 ha show ?thesis
      by (simp add: lines_def Let_def has_arcs_def file_id_def)
  next
    case (Some i)
    then have i: "(i, f) \<in> set (file_rows db)" using fm by simp
    then have k: "f \<in> snd ` set (file_rows db)" by force
    have only: "i' = i" if "(i', f) \<in> set (file_rows db)" for i'
      using u i that by (auto simp: unique_rows_def dest: distinct_snd_unique)
    have "set (concat (map numbits_to_nums (map (\<lambda>(f, c, n). n)
            (filter (\<lambda>(f, c, n). f = i \<and> in_query_contexts ?s1 c) (line_bits_rows db))))) =
          recorded db f c"
    proof (rule set_eqI)
      fix n
      have "n \<in> set (concat (map numbits_to_nums (map (\<lambda>(f, c, n). n)
            (filter (\<lambda>(f, c, n). f = i \<and> in_query_contexts ?s1 c) (line_bits_rows db))))) \<longleftrightarrow>
          (\<exists>j nb. (i, j, nb) \<in> set (line_bits_rows db) \<and> (j, c) \<in> set (context_rows db) \<and>
             n \<in> set (numbits_to_nums nb))"
        using ids by (auto simp: in_query_contexts_def) 
      also have "\<dots> \<longleftrightarrow> n \<in> recorded db f c"
        unfolding recorded_iff using i only by blast
      finally show "n \<in> set (concat (map numbits_to_nums (map (\<lambda>(f, c, n). n)
            (filter (\<lambda>(f, c, n). f = i \<and> in_query_contexts ?s1 c) (line_bits_rows db))))) \<longleftrightarrow>
          n \<in> recorded db f c" .
    qed
    then have "set (map int (concat (map numbits_to_nums (map (\<lambda>(f, c, n). n)
            (filter (\<lambda>(f, c, n). f = i \<and> in_query_contexts ?s1 c) (line_bits_rows db)))))) =
          int ` recorded db f c"
      by (simp only: set_map)
    with Some iu1 ha k show ?thesis
      by (simp add: lines_def Let_def has_arcs_def file_id_def)
  qed
  from q l show ?thesis by blast
qed

lemma update_write_lines:
  assumes iu: "in_use s db" and hl: "cd_has_lines s" and ha: "\<not> cd_has_arcs s"
    and u: "unique_rows db" and r: "references_ok db" and uo: "unique_rows odb"
    and w: "update_write (\<lambda>path. path) s
              (other_files_values (\<lambda>path. path) odb) (other_contexts odb)
              (other_arcs (\<lambda>path. path) odb) (other_lines (\<lambda>path. path) odb)
              (other_tracers (\<lambda>path. path) odb) = Inr s1"
  shows "\<exists>db'. s1 = s \<lparr> cd_store := Some db' \<rparr> \<and> unique_rows db' \<and> references_ok db' \<and>
           snd ` set (file_rows db') = snd ` set (file_rows db) \<union> snd ` set (file_rows odb) \<and>
           (\<forall>f c. recorded db' f c = recorded db f c \<union> recorded odb f c)"
proof -
  let ?fv = "other_files_values (\<lambda>path. path) odb"
  let ?db2 = "insert_files_contexts ?fv (other_contexts odb) db"
  let ?ld = "other_lines (\<lambda>path. path) odb"
  let ?ld1 = "merged_lines (\<lambda>path. path) ?db2 ?ld"
  let ?s2 = "s \<lparr> cd_store := Some ?db2 \<rparr>"
  from w obtain tm where
    wr: "update_write_rows (file_ids_of ?db2) (context_ids_of ?db2)
           (other_arcs (\<lambda>path. path) odb) ?ld1 tm ?s2 = Inr s1"
    unfolding update_write_def in_use_connect [OF iu] then_res_simps prod.case Let_def
    by (auto simp: then_res_Inr)
  have iu2: "in_use ?s2 ?db2" using iu by (simp add: in_use_def)
  have u2: "unique_rows ?db2" by (rule unique_rows_insert [OF u])
  have r2: "references_ok ?db2" by (rule references_ok_insert [OF u r])
  have d: "distinct (map fst ?ld1)"
    by (rule distinct_merged_lines) (simp add: other_lines_def distinct_dict_of)
  from update_write_rows_lines [OF iu2 _ _ u2 r2 d wr] hl ha obtain db' where
    s1: "s1 = ?s2 \<lparr> cd_store := Some db' \<rparr>" and u': "unique_rows db'" and r': "references_ok db'"
    and f': "file_rows db' = file_rows ?db2"
    and rec: "\<forall>f c. recorded db' f c = (if ?ld1 = [] then recorded ?db2 f c else dict_lines ?ld1 f c)"
    by auto
  have dl: "dict_lines ?ld1 f c = recorded odb f c \<union> recorded db f c" for f c
    by (simp add: dict_lines_merged dict_lines_other [OF uo] recorded_insert [OF u r])
  have "recorded db' f c = recorded db f c \<union> recorded odb f c" for f c
  proof (cases "?ld1 = []")
    case True
    then have "dict_lines ?ld1 f c = {}" by (simp add: dict_lines_def)
    with dl have "recorded odb f c = {}" "recorded db f c = {}" by auto
    with rec True show ?thesis by (simp add: recorded_insert [OF u r])
  next
    case False
    with rec dl show ?thesis by auto
  qed
  moreover have "snd ` set (file_rows db') = snd ` set (file_rows db) \<union> snd ` set (file_rows odb)"
    unfolding f' insert_files_contexts_rows(3) [OF u] other_files_values_id by blast
  moreover have "s1 = s \<lparr> cd_store := Some db' \<rparr>" unfolding s1 by simp
  ultimately show ?thesis using u' r' by blast
qed

text \<open>
  Claim C1, as the code has it. For two objects in use, this one kept on disk and in
  lines mode, whose tables satisfy the constraints of the schema, and with no path
  aliases: when \<^verbatim>\<open>update\<close> returns, the database of this object holds, for every file
  and every context, the union of the lines that the two databases held for them, and
  \<^verbatim>\<open>lines(f)\<close> under the query context \<open>c\<close> returns that union when \<open>f\<close> is a
  file of one of the two databases, and \<^verbatim>\<open>None\<close> when it is a file of neither. The
  object is then in use, on disk and in lines mode, on a database that satisfies the same
  constraints, so the statement holds of the next \<^verbatim>\<open>update\<close> as well.
\<close>

theorem update_lines_union:
  assumes iu: "in_use s db" and io: "in_use other odb" and nd: "\<not> cd_no_disk s"
    and lk: "locked False s"
    and u: "unique_rows db" and r: "references_ok db" and uo: "unique_rows odb"
    and up: "update (\<lambda>path. path) s other = Inr (s', other')"
  shows "\<exists>db'. in_use s' db' \<and> \<not> cd_no_disk s' \<and> locked False s' \<and>
           unique_rows db' \<and> references_ok db' \<and>
           (\<forall>f c. recorded db' f c = recorded db f c \<union> recorded odb f c) \<and>
           (\<forall>f c. \<exists>s1. set_query_context s' c = Inr s1 \<and>
              lines s1 f =
                Inr (s1, if f \<in> snd ` set (file_rows db) \<union> snd ` set (file_rows odb)
                         then Some (int ` (recorded db f c \<union> recorded odb f c)) else None))"
proof -
  from lk have hl: "cd_has_lines s" and ha: "\<not> cd_has_arcs s" by (simp_all add: locked_def)
  from up io obtain s1 where
    w: "update_write (\<lambda>path. path) s
              (other_files_values (\<lambda>path. path) odb) (other_contexts odb)
              (other_arcs (\<lambda>path. path) odb) (other_lines (\<lambda>path. path) odb)
              (other_tracers (\<lambda>path. path) odb) = Inr s1"
    and rd: "read (reset s1) = Inr s'"
    unfolding update_def using iu
    by (auto simp: in_use_read then_res_Inr split: if_splits)
  from update_write_lines [OF iu hl ha u r uo w] obtain db' where
    s1: "s1 = s \<lparr> cd_store := Some db' \<rparr>" and u': "unique_rows db'" and r': "references_ok db'"
    and f': "snd ` set (file_rows db') = snd ` set (file_rows db) \<union> snd ` set (file_rows odb)"
    and rec: "\<forall>f c. recorded db' f c = recorded db f c \<union> recorded odb f c"
    by blast
  have iu1: "in_use s1 db'" and nd1: "\<not> cd_no_disk s1"
    using iu nd unfolding s1 by (simp_all add: in_use_def)
  from read_reset [OF iu1 nd1 rd] have iu': "in_use s' db'" and nd': "\<not> cd_no_disk s'"
    and fm: "cd_file_map s' =
      fold (\<lambda>(file_id, path) m. m(path \<mapsto> file_id)) (file_rows db') Map.empty"
    by simp_all
  have lk': "locked False s'" by (rule stable_update [OF stable_locked lk up])
  then have ha': "\<not> cd_has_arcs s'" by (simp add: locked_def)
  have fmr: "cd_file_map s' p = Some i \<longleftrightarrow> (i, p) \<in> set (file_rows db')" for p i
    unfolding fm using u' by (intro file_map_rows) (simp add: unique_rows_def)
  have "\<exists>s1. set_query_context s' c = Inr s1 \<and>
              lines s1 f =
                Inr (s1, if f \<in> snd ` set (file_rows db) \<union> snd ` set (file_rows odb)
                         then Some (int ` (recorded db f c \<union> recorded odb f c)) else None)" for f c
  proof -
    from rec have e: "recorded db' f c = recorded db f c \<union> recorded odb f c" by blast
    show ?thesis
      using lines_query [OF iu' ha' u' fmr, of c f] unfolding f' e .
  qed
  with iu' nd' lk' u' r' rec show ?thesis by blast
qed

text \<open>
  A second concrete object, the one \<^verbatim>\<open>add_lines({"b.py": {1}, "a.py": {2, 3}})\<close>
  leaves when called on a new object, and the object that \<^verbatim>\<open>update\<close> with it leaves
  when called on the object with \<^verbatim>\<open>a.py\<close> and the lines 1, 2 and 5.
\<close>

definition other_db :: database where
  "other_db =
     \<lparr> coverage_schema = [7],
       meta_rows = [(''sys_argv'', []), (''version'', []), (''when'', []), (''has_arcs'', ''0'')],
       file_rows = [(1, ''b.py''), (2, ''a.py'')],
       context_rows = [(1, [])],
       line_bits_rows = [(1, 1, [2]), (2, 1, [12])],
       arc_rows = [],
       tracer_rows = [] \<rparr>"

definition other_store :: CoverageData where
  "other_store =
     \<lparr> cd_no_disk = False,
       cd_store = Some other_db,
       cd_dbs = True,
       cd_file_map = [''b.py'' \<mapsto> 1, ''a.py'' \<mapsto> 2],
       cd_have_used = True,
       cd_has_lines = True,
       cd_has_arcs = False,
       cd_current_context = None,
       cd_current_context_id = Some 1,
       cd_query_context_ids = None \<rparr>"

lemma other_store_reached:
  "add_lines (init False None) [(''b.py'', [1]), (''a.py'', [2, 3])] = Inr other_store"
  by (simp add: model_defs other_store_def other_db_def numeral_2_eq_2)

definition merged_db :: database where
  "merged_db =
     \<lparr> coverage_schema = [7],
       meta_rows = [(''sys_argv'', []), (''version'', []), (''when'', []), (''has_arcs'', ''0'')],
       file_rows = [(1, ''a.py''), (2, ''b.py'')],
       context_rows = [(1, [])],
       line_bits_rows = [(2, 1, [2]), (1, 1, [46])],
       arc_rows = [],
       tracer_rows = [(2, []), (1, [])] \<rparr>"

definition merged_store :: CoverageData where
  "merged_store =
     \<lparr> cd_no_disk = False,
       cd_store = Some merged_db,
       cd_dbs = True,
       cd_file_map = [''a.py'' \<mapsto> 1, ''b.py'' \<mapsto> 2],
       cd_have_used = True,
       cd_has_lines = True,
       cd_has_arcs = False,
       cd_current_context = None,
       cd_current_context_id = None,
       cd_query_context_ids = None \<rparr>"

lemma in_use_other_store: "in_use other_store other_db"
  by (simp add: in_use_def other_store_def)

lemma update_example:
  "update (\<lambda>path. path) (example_store []) other_store = Inr (merged_store, other_store)"
  by (simp add: update_defs model_defs example_store_def example_db_def other_store_def other_db_def
      merged_store_def merged_db_def numeral_2_eq_2)

lemma numbits_examples:
  "numbits_to_nums [2] = [1]" "numbits_to_nums [12] = [2, 3]" "numbits_to_nums [46] = [1, 2, 3, 5]"
  by code_simp+

lemma recorded_examples:
  "recorded (example_db []) ''a.py'' [] = {1, 2, 5}"
  "recorded other_db ''a.py'' [] = {2, 3}"
  "recorded (example_db []) ''b.py'' [] = {}"
  "recorded other_db ''b.py'' [] = {1}"
  "recorded (example_db []) ''c.py'' [] = {}"
  "recorded other_db ''c.py'' [] = {}"
  by (simp_all add: recorded_def join_file_context_def example_db_def other_db_def
      numbits_38 numbits_examples)

theorem update_lines_union_witness:
  "in_use (example_store []) (example_db []) \<and> in_use other_store other_db \<and>
   \<not> cd_no_disk (example_store []) \<and> locked False (example_store []) \<and>
   unique_rows (example_db []) \<and> references_ok (example_db []) \<and> unique_rows other_db \<and>
   update (\<lambda>path. path) (example_store []) other_store = Inr (merged_store, other_store) \<and>
   recorded (example_db []) ''a.py'' [] = {1, 2, 5} \<and> recorded other_db ''a.py'' [] = {2, 3} \<and>
   (\<exists>db'. in_use merged_store db' \<and> recorded db' ''a.py'' [] = {1, 2, 3, 5} \<and>
           recorded db' ''b.py'' [] = {1}) \<and>
   (\<exists>s1. set_query_context merged_store [] = Inr s1 \<and>
         lines s1 ''a.py'' = Inr (s1, Some {1, 2, 3, 5})) \<and>
   (\<exists>s1. set_query_context merged_store [] = Inr s1 \<and> lines s1 ''b.py'' = Inr (s1, Some {1}))"
proof -
  have h: "\<not> cd_no_disk (example_store [])" "locked False (example_store [])"
    "unique_rows (example_db [])" "references_ok (example_db [])" "unique_rows other_db"
    by (simp_all add: example_store_def example_db_def other_db_def locked_def store_rows_def
        mode_rows_def mode_text_def unique_rows_def references_ok_def)
  from update_lines_union [OF in_use_example in_use_other_store h update_example]
  obtain db' where iu: "in_use merged_store db'"
    and rec: "\<forall>f c. recorded db' f c = recorded (example_db []) f c \<union> recorded other_db f c"
    and q: "\<forall>f c. \<exists>s1. set_query_context merged_store c = Inr s1 \<and>
              lines s1 f =
                Inr (s1, if f \<in> snd ` set (file_rows (example_db [])) \<union> snd ` set (file_rows other_db)
                         then Some (int ` (recorded (example_db []) f c \<union> recorded other_db f c))
                         else None)"
    by blast
  have files: "''a.py'' \<in> snd ` set (file_rows (example_db [])) \<union> snd ` set (file_rows other_db)"
    "''b.py'' \<in> snd ` set (file_rows (example_db [])) \<union> snd ` set (file_rows other_db)"
    by (simp_all add: example_db_def other_db_def)
  have u: "{1, 2, 5} \<union> {2, 3} = {1, 2, 3, 5 :: nat}" by auto
  have ua: "recorded (example_db []) ''a.py'' [] \<union> recorded other_db ''a.py'' [] = {1, 2, 3, 5}"
    unfolding recorded_examples by (rule u)
  have ub: "recorded (example_db []) ''b.py'' [] \<union> recorded other_db ''b.py'' [] = {1}"
    unfolding recorded_examples by simp
  have ia: "int ` {1, 2, 3, 5} = {1, 2, 3, 5}" and ib: "int ` {1} = {1}" by simp_all
  from rec have "recorded db' ''a.py'' [] =
      recorded (example_db []) ''a.py'' [] \<union> recorded other_db ''a.py'' []" by blast
  then have ra: "recorded db' ''a.py'' [] = {1, 2, 3, 5}" unfolding ua .
  from rec have "recorded db' ''b.py'' [] =
      recorded (example_db []) ''b.py'' [] \<union> recorded other_db ''b.py'' []" by blast
  then have rb: "recorded db' ''b.py'' [] = {1}" unfolding ub .
  from q have "\<exists>s1. set_query_context merged_store [] = Inr s1 \<and>
              lines s1 ''a.py'' =
                Inr (s1, if ''a.py'' \<in> snd ` set (file_rows (example_db [])) \<union> snd ` set (file_rows other_db)
                         then Some (int ` (recorded (example_db []) ''a.py'' [] \<union> recorded other_db ''a.py'' []))
                         else None)" by blast
  then have la: "\<exists>s1. set_query_context merged_store [] = Inr s1 \<and>
         lines s1 ''a.py'' = Inr (s1, Some {1, 2, 3, 5})"
    unfolding ua ia if_P [OF files(1)] .
  from q have "\<exists>s1. set_query_context merged_store [] = Inr s1 \<and>
              lines s1 ''b.py'' =
                Inr (s1, if ''b.py'' \<in> snd ` set (file_rows (example_db [])) \<union> snd ` set (file_rows other_db)
                         then Some (int ` (recorded (example_db []) ''b.py'' [] \<union> recorded other_db ''b.py'' []))
                         else None)" by blast
  then have lb: "\<exists>s1. set_query_context merged_store [] = Inr s1 \<and> lines s1 ''b.py'' = Inr (s1, Some {1})"
    unfolding ub ib if_P [OF files(2)] .
  from in_use_example [of "[]"] in_use_other_store h update_example recorded_examples(1,2) iu ra rb la lb
  show ?thesis by blast
qed

text \<open>
  The claim as stated fails for a file of neither store: no line is recorded for
  \<^verbatim>\<open>c.py\<close> in either of them, so the union is empty, but \<^verbatim>\<open>lines("c.py")\<close>
  returns \<^verbatim>\<open>None\<close> after the update, not the empty list.
\<close>

theorem update_lines_union_counterexample:
  "update (\<lambda>path. path) (example_store []) other_store = Inr (merged_store, other_store) \<and>
   recorded (example_db []) ''c.py'' [] \<union> recorded other_db ''c.py'' [] = {} \<and>
   (\<exists>s1. set_query_context merged_store [] = Inr s1 \<and> lines s1 ''c.py'' = Inr (s1, None))"
proof (intro conjI)
  show "update (\<lambda>path. path) (example_store []) other_store = Inr (merged_store, other_store)"
    by (rule update_example)
  show "recorded (example_db []) ''c.py'' [] \<union> recorded other_db ''c.py'' [] = {}"
    by (simp add: recorded_examples)
  show "\<exists>s1. set_query_context merged_store [] = Inr s1 \<and> lines s1 ''c.py'' = Inr (s1, None)"
    by (simp add: model_defs merged_store_def merged_db_def)
qed

text \<open>
  With \<^verbatim>\<open>no_disk\<close> the database lives in the connection of the \<^verbatim>\<open>SqliteDb\<close>
  object. \<^verbatim>\<open>update\<close> ends with \<^verbatim>\<open>self._reset()\<close> and \<^verbatim>\<open>self.read()\<close> (lines
  713-715): the first drops that object and the second creates a new, empty database. So
  on such an object \<^verbatim>\<open>update\<close> returns and leaves no data at all.
\<close>

lemma update_no_disk_drops_data:
  "\<exists>s s' o' s1.
     add_lines (init True None) [(''a.py'', [1, 2, 5])] = Inr s \<and>
     update (\<lambda>path. path) s other_store = Inr (s', o') \<and>
     cd_store s' = Some new_database \<and>
     set_query_context s' [] = Inr s1 \<and> lines s1 ''a.py'' = Inr (s1, None)"
  by (simp add: update_defs model_defs other_store_def other_db_def numeral_2_eq_2)

end
